theory Spec2Isabelle
  imports Complex_Main
begin

section \<open>Scalar nodes and the heap\<close>

text \<open>
  The engine (\<^verbatim>\<open>micrograd/engine.py\<close>) builds a graph of \<^verbatim>\<open>Value\<close> objects that are shared
  by reference and mutated in place (\<^verbatim>\<open>grad\<close>).  The model keeps every object in a heap,
  a list of nodes; the identity of an object is its index in that list, and a constructor
  call appends one node.  Numbers are exact reals: Python's unbounded integers are
  embedded exactly, and the rounding, infinities and NaNs of floats are outside the model.
\<close>

datatype error = AssertionError | ZeroDivisionError

type_synonym addr = nat

text \<open>
  The closure stored in \<^verbatim>\<open>_backward\<close>, with the variables it captures
  (\<^verbatim>\<open>self\<close>, \<^verbatim>\<open>other\<close>, \<^verbatim>\<open>out\<close>); \<open>NoOp\<close> is \<^verbatim>\<open>lambda: None\<close>.
\<close>

datatype closure =
    NoOp
  | AddBackward addr addr addr
  | MulBackward addr addr addr
  | PowBackward addr int addr
  | ReluBackward addr addr

record node =
  data :: real
  grad :: real
  backward_fn :: closure
  prev :: "addr set"
  op_tag :: string

type_synonym heap = "node list"

text \<open>An operand of a binary operator: a \<^verbatim>\<open>Value\<close> (by reference) or a raw number.\<close>

datatype arg = Ref addr | Num real

text \<open>
  What \<^verbatim>\<open>__pow__\<close> may receive as its exponent: an integer literal, a \<^verbatim>\<open>Value\<close>, or some
  other object (a string).  Exponents that are floats are outside the model.
\<close>

datatype exponent = IntLit int | NodeExp addr | StrExp string

subsection \<open>Python's number operations\<close>

text \<open>
  \<^verbatim>\<open>x ** k\<close> for an integer \<open>k\<close>: Python raises \<^verbatim>\<open>ZeroDivisionError\<close> for a zero base and
  a negative exponent.  Numbers are exact reals here, so the rounding of floats and the
  \<^verbatim>\<open>OverflowError\<close> that Python raises when a float result leaves the range of a double
  (\<^verbatim>\<open>1e200 ** 2\<close>) have no counterpart: where \<open>py_pow\<close> returns, Python returns the rounded
  value or raises \<^verbatim>\<open>OverflowError\<close>.  \<open>str_int\<close> is \<^verbatim>\<open>str\<close> on an integer, for the tag
  of a power node.
\<close>

definition py_pow :: "real \<Rightarrow> int \<Rightarrow> error + real" where
  "py_pow x k = (if x = 0 \<and> k < 0 then Inl ZeroDivisionError else Inr (x powi k))"

fun str_nat :: "nat \<Rightarrow> string" where
  "str_nat n =
     (if n < 10 then [''0123456789'' ! n]
      else str_nat (n div 10) @ [''0123456789'' ! (n mod 10)])"

declare str_nat.simps [simp del]

definition str_int :: "int \<Rightarrow> string" where
  "str_int k = (if k < 0 then CHR ''-'' # str_nat (nat (- k)) else str_nat (nat k))"

subsection \<open>Construction\<close>

text \<open>\<^verbatim>\<open>Value.__init__\<close>: a new object, returned with the extended heap.\<close>

definition Value_init :: "real \<Rightarrow> addr list \<Rightarrow> string \<Rightarrow> heap \<Rightarrow> addr \<times> heap" where
  "Value_init d children op h =
     (length h,
      h @ [\<lparr>data = d, grad = 0, backward_fn = NoOp, prev = set children, op_tag = op\<rparr>])"

text \<open>The assignment \<^verbatim>\<open>out._backward = _backward\<close>.\<close>

definition set_backward :: "addr \<Rightarrow> closure \<Rightarrow> heap \<Rightarrow> heap" where
  "set_backward out c h = h[out := (h ! out)\<lparr>backward_fn := c\<rparr>]"

text \<open>\<^verbatim>\<open>other if isinstance(other, Value) else Value(other)\<close>\<close>

fun wrap :: "arg \<Rightarrow> heap \<Rightarrow> addr \<times> heap" where
  "wrap (Ref a) h = (a, h)"
| "wrap (Num x) h = Value_init x [] [] h"

definition Value_add :: "addr \<Rightarrow> arg \<Rightarrow> heap \<Rightarrow> addr \<times> heap" where
  "Value_add self other h =
     (let (other, h) = wrap other h;
          (out, h) = Value_init (data (h ! self) + data (h ! other)) [self, other] ''+'' h
      in (out, set_backward out (AddBackward self other out) h))"

definition Value_mul :: "addr \<Rightarrow> arg \<Rightarrow> heap \<Rightarrow> addr \<times> heap" where
  "Value_mul self other h =
     (let (other, h) = wrap other h;
          (out, h) = Value_init (data (h ! self) * data (h ! other)) [self, other] ''*'' h
      in (out, set_backward out (MulBackward self other out) h))"

definition Value_pow :: "addr \<Rightarrow> exponent \<Rightarrow> heap \<Rightarrow> error + addr \<times> heap" where
  "Value_pow self other h =
     (case other of
        IntLit k \<Rightarrow>
          (case py_pow (data (h ! self)) k of
             Inl e \<Rightarrow> Inl e
           | Inr d \<Rightarrow>
               (let (out, h) = Value_init d [self] (''**'' @ str_int k) h
                in Inr (out, set_backward out (PowBackward self k out) h)))
      | _ \<Rightarrow> Inl AssertionError)"

definition Value_relu :: "addr \<Rightarrow> heap \<Rightarrow> addr \<times> heap" where
  "Value_relu self h =
     (let (out, h) =
            Value_init (if data (h ! self) < 0 then 0 else data (h ! self)) [self] ''ReLU'' h
      in (out, set_backward out (ReluBackward self out) h))"

subsection \<open>The backward rules\<close>

text \<open>\<^verbatim>\<open>v.grad += x\<close>\<close>

definition add_grad :: "addr \<Rightarrow> real \<Rightarrow> heap \<Rightarrow> heap" where
  "add_grad v x h = h[v := (h ! v)\<lparr>grad := grad (h ! v) + x\<rparr>]"

text \<open>
  Calling a stored closure.  Each statement reads the heap that the statement before it
  left, as the Python does; the power rule evaluates \<^verbatim>\<open>self.data**(other-1)\<close> first and
  raises what that raises.
\<close>

fun call_backward :: "closure \<Rightarrow> heap \<Rightarrow> error + heap" where
  "call_backward NoOp h = Inr h"
| "call_backward (AddBackward self other out) h =
     (let h = add_grad self (grad (h ! out)) h;
          h = add_grad other (grad (h ! out)) h
      in Inr h)"
| "call_backward (MulBackward self other out) h =
     (let h = add_grad self (data (h ! other) * grad (h ! out)) h;
          h = add_grad other (data (h ! self) * grad (h ! out)) h
      in Inr h)"
| "call_backward (PowBackward self other out) h =
     (case py_pow (data (h ! self)) (other - 1) of
        Inl e \<Rightarrow> Inl e
      | Inr p \<Rightarrow> Inr (add_grad self ((of_int other * p) * grad (h ! out)) h))"
| "call_backward (ReluBackward self out) h =
     Inr (add_grad self ((if data (h ! out) > 0 then 1 else 0) * grad (h ! out)) h)"

subsection \<open>The backward pass\<close>

text \<open>
  \<^verbatim>\<open>build_topo\<close> with its \<^verbatim>\<open>for child in v._prev\<close> loop (\<open>build_children\<close>).  The state is
  the pair of the two variables the closure updates, \<^verbatim>\<open>visited\<close> and \<^verbatim>\<open>topo\<close>.  Python
  does not say in which order a set is iterated: \<open>iter\<close> is that order, a parameter.
  The first argument bounds the depth of the recursion; \<open>None\<close> is "did not return".
\<close>

fun build_topo :: "(addr set \<Rightarrow> addr list) \<Rightarrow> nat \<Rightarrow> heap \<Rightarrow> addr \<Rightarrow>
      addr set \<times> addr list \<Rightarrow> (addr set \<times> addr list) option"
  and build_children :: "(addr set \<Rightarrow> addr list) \<Rightarrow> nat \<Rightarrow> heap \<Rightarrow> addr list \<Rightarrow>
      addr set \<times> addr list \<Rightarrow> (addr set \<times> addr list) option"
where
  "build_topo iter 0 h v st = None"
| "build_topo iter (Suc n) h v (visited, topo) =
     (if v \<notin> visited then
        (case build_children iter n h (iter (prev (h ! v))) (insert v visited, topo) of
           None \<Rightarrow> None
         | Some (visited', topo') \<Rightarrow> Some (visited', topo' @ [v]))
      else Some (visited, topo))"
| "build_children iter n h [] st = Some st"
| "build_children iter n h (child # rest) st =
     (case build_topo iter n h child st of
        None \<Rightarrow> None
      | Some st' \<Rightarrow> build_children iter n h rest st')"

text \<open>\<^verbatim>\<open>for v in reversed(topo): v._backward()\<close>, given the reversed list.\<close>

fun run_backward :: "addr list \<Rightarrow> heap \<Rightarrow> error + heap" where
  "run_backward [] h = Inr h"
| "run_backward (v # vs) h =
     (case call_backward (backward_fn (h ! v)) h of
        Inl e \<Rightarrow> Inl e
      | Inr h' \<Rightarrow> run_backward vs h')"

text \<open>
  \<^verbatim>\<open>Value.backward\<close>.  The recursion of \<^verbatim>\<open>build_topo\<close> gets a depth of one more than the
  number of objects, which is enough on every heap (\<open>build_topo_returns\<close> below).
\<close>

definition Value_backward :: "(addr set \<Rightarrow> addr list) \<Rightarrow> addr \<Rightarrow> heap \<Rightarrow> (error + heap) option" where
  "Value_backward iter self h =
     (case build_topo iter (Suc (length h)) h self ({}, []) of
        None \<Rightarrow> None
      | Some (visited, topo) \<Rightarrow>
          Some (run_backward (rev topo) (h[self := (h ! self)\<lparr>grad := 1\<rparr>])))"

subsection \<open>Derived operators\<close>

definition Value_neg :: "addr \<Rightarrow> heap \<Rightarrow> addr \<times> heap" where
  "Value_neg self h = Value_mul self (Num (- 1)) h"

definition Value_radd :: "addr \<Rightarrow> arg \<Rightarrow> heap \<Rightarrow> addr \<times> heap" where
  "Value_radd self other h = Value_add self other h"

text \<open>
  \<^verbatim>\<open>self + (-other)\<close>: the negation of a \<^verbatim>\<open>Value\<close> is \<^verbatim>\<open>Value.__neg__\<close>, that of a raw
  number is the number's own.
\<close>

definition Value_sub :: "addr \<Rightarrow> arg \<Rightarrow> heap \<Rightarrow> addr \<times> heap" where
  "Value_sub self other h =
     (case other of
        Ref b \<Rightarrow> (let (n, h) = Value_neg b h in Value_add self (Ref n) h)
      | Num x \<Rightarrow> Value_add self (Num (- x)) h)"

text \<open>
  \<^verbatim>\<open>other + (-self)\<close>: with a \<^verbatim>\<open>Value\<close> on the left this is \<^verbatim>\<open>Value.__add__\<close>; with a raw
  number on the left, the number's \<^verbatim>\<open>__add__\<close> declines and Python calls
  \<^verbatim>\<open>__radd__\<close> of the right operand.
\<close>

definition Value_rsub :: "addr \<Rightarrow> arg \<Rightarrow> heap \<Rightarrow> addr \<times> heap" where
  "Value_rsub self other h =
     (let (n, h) = Value_neg self h
      in case other of
           Ref b \<Rightarrow> Value_add b (Ref n) h
         | Num x \<Rightarrow> Value_radd n (Num x) h)"

definition Value_rmul :: "addr \<Rightarrow> arg \<Rightarrow> heap \<Rightarrow> addr \<times> heap" where
  "Value_rmul self other h = Value_mul self other h"

text \<open>
  \<^verbatim>\<open>self * other**-1\<close>: the power of a \<^verbatim>\<open>Value\<close> is \<^verbatim>\<open>Value.__pow__\<close>, that of a raw
  number is Python's.
\<close>

definition Value_truediv :: "addr \<Rightarrow> arg \<Rightarrow> heap \<Rightarrow> error + addr \<times> heap" where
  "Value_truediv self other h =
     (case other of
        Ref b \<Rightarrow>
          (case Value_pow b (IntLit (- 1)) h of
             Inl e \<Rightarrow> Inl e
           | Inr (p, h) \<Rightarrow> Inr (Value_mul self (Ref p) h))
      | Num x \<Rightarrow>
          (case py_pow x (- 1) of
             Inl e \<Rightarrow> Inl e
           | Inr y \<Rightarrow> Inr (Value_mul self (Num y) h)))"

text \<open>\<^verbatim>\<open>other * self**-1\<close>, with the same dispatch as in \<open>Value_rsub\<close>.\<close>

definition Value_rtruediv :: "addr \<Rightarrow> arg \<Rightarrow> heap \<Rightarrow> error + addr \<times> heap" where
  "Value_rtruediv self other h =
     (case Value_pow self (IntLit (- 1)) h of
        Inl e \<Rightarrow> Inl e
      | Inr (p, h) \<Rightarrow>
          (case other of
             Ref b \<Rightarrow> Inr (Value_mul b (Ref p) h)
           | Num x \<Rightarrow> Inr (Value_rmul p (Num x) h)))"

subsection \<open>The network classes\<close>

text \<open>
  \<^verbatim>\<open>micrograd/nn.py\<close>.  A neuron holds its weights and its bias by reference; an input
  vector is a list of operands.
\<close>

record neuron =
  neuron_w :: "addr list"
  neuron_b :: addr
  nonlin :: bool

text \<open>
  \<^verbatim>\<open>sum((wi*xi for wi,xi in zip(self.w, x)), self.b)\<close>: the generator is consumed one
  product at a time, each added to the running total, which starts at the bias.
\<close>

fun sum_products :: "(addr \<times> arg) list \<Rightarrow> addr \<Rightarrow> heap \<Rightarrow> addr \<times> heap" where
  "sum_products [] act h = (act, h)"
| "sum_products ((wi, xi) # rest) act h =
     (let (p, h) = Value_mul wi xi h;
          (act, h) = Value_add act (Ref p) h
      in sum_products rest act h)"

definition Neuron_call :: "neuron \<Rightarrow> arg list \<Rightarrow> heap \<Rightarrow> addr \<times> heap" where
  "Neuron_call n x h =
     (let (act, h) = sum_products (zip (neuron_w n) x) (neuron_b n) h
      in if nonlin n then Value_relu act h else (act, h))"

record layer =
  neurons :: "neuron list"

text \<open>What \<^verbatim>\<open>Layer.__call__\<close> returns: one \<^verbatim>\<open>Value\<close>, or a list of them.\<close>

datatype layer_out = Single addr | Many "addr list"

text \<open>\<^verbatim>\<open>[n(x) for n in self.neurons]\<close>\<close>

fun call_neurons :: "neuron list \<Rightarrow> arg list \<Rightarrow> heap \<Rightarrow> addr list \<times> heap" where
  "call_neurons [] x h = ([], h)"
| "call_neurons (n # ns) x h =
     (let (a, h) = Neuron_call n x h;
          (as, h) = call_neurons ns x h
      in (a # as, h))"

definition Layer_call :: "layer \<Rightarrow> arg list \<Rightarrow> heap \<Rightarrow> layer_out \<times> heap" where
  "Layer_call l x h =
     (let (out, h) = call_neurons (neurons l) x h
      in (if length out = 1 then Single (out ! 0) else Many out, h))"

section \<open>Graphs in the heap\<close>

text \<open>
  The order in which a set is iterated is any enumeration of its elements.
\<close>

definition iter_ok :: "(addr set \<Rightarrow> addr list) \<Rightarrow> bool" where
  "iter_ok iter = (\<forall>S. finite S \<longrightarrow> set (iter S) = S \<and> distinct (iter S))"

text \<open>The operand relation, from a node to each member of its \<^verbatim>\<open>_prev\<close>.\<close>

definition edges :: "heap \<Rightarrow> (addr \<times> addr) set" where
  "edges h = {(v, c). v < length h \<and> c \<in> prev (h ! v)}"

definition reachable :: "heap \<Rightarrow> addr \<Rightarrow> addr set" where
  "reachable h r = {v. (r, v) \<in> (edges h)\<^sup>*}"

text \<open>Every reference points into the heap.\<close>

definition refs_ok :: "heap \<Rightarrow> bool" where
  "refs_ok h = (\<forall>v<length h. \<forall>c\<in>prev (h ! v). c < length h)"

text \<open>
  A closure is the one its node was built with: \<^verbatim>\<open>out\<close> is the node itself and the
  operands it captured are among the node's \<^verbatim>\<open>_prev\<close>.
\<close>

fun closure_ok :: "addr \<Rightarrow> addr set \<Rightarrow> closure \<Rightarrow> bool" where
  "closure_ok v P NoOp = True"
| "closure_ok v P (AddBackward self other out) = (out = v \<and> self \<in> P \<and> other \<in> P)"
| "closure_ok v P (MulBackward self other out) = (out = v \<and> self \<in> P \<and> other \<in> P)"
| "closure_ok v P (PowBackward self other out) = (out = v \<and> self \<in> P)"
| "closure_ok v P (ReluBackward self out) = (out = v \<and> self \<in> P)"

definition closures_ok :: "heap \<Rightarrow> bool" where
  "closures_ok h = (\<forall>v<length h. closure_ok v (prev (h ! v)) (backward_fn (h ! v)))"

text \<open>The graphs that the operators build: valid references, matching closures, no cycle.\<close>

definition graph_ok :: "heap \<Rightarrow> bool" where
  "graph_ok h = (refs_ok h \<and> closures_ok h \<and> acyclic (edges h))"

text \<open>
  The order of a traversal: in \<open>consumers_first\<close> every node comes before its operands,
  in \<open>operands_first\<close> after them.
\<close>

fun consumers_first :: "heap \<Rightarrow> addr list \<Rightarrow> bool" where
  "consumers_first h [] = True"
| "consumers_first h (v # vs) = (prev (h ! v) \<subseteq> set vs \<and> consumers_first h vs)"

definition operands_first :: "heap \<Rightarrow> addr list \<Rightarrow> bool" where
  "operands_first h topo = consumers_first h (rev topo)"

text \<open>
  The invariant of the traversal.  Before a call on the nodes \<open>X\<close>: what is recorded is
  visited, without repetition and operands first, and every visited node that is not yet
  recorded (a call in progress) is an ancestor of \<open>X\<close>.  After it: the record has grown
  by exactly the nodes reachable from \<open>X\<close>.
\<close>

definition dfs_pre :: "heap \<Rightarrow> addr set \<Rightarrow> addr list \<Rightarrow> addr set \<Rightarrow> bool" where
  "dfs_pre h vis topo X =
     (set topo \<subseteq> vis \<and> distinct topo \<and> operands_first h topo \<and>
      (\<forall>s\<in>vis - set topo. \<forall>x\<in>X. (s, x) \<in> (edges h)\<^sup>+))"

definition dfs_post ::
    "heap \<Rightarrow> addr set \<Rightarrow> addr list \<Rightarrow> addr set \<Rightarrow> addr set \<Rightarrow> addr list \<Rightarrow> bool" where
  "dfs_post h vis topo X vis' topo' =
     ((\<exists>new. topo' = topo @ new) \<and> set topo' = set topo \<union> (edges h)\<^sup>* `` X \<and>
      vis' = vis \<union> (edges h)\<^sup>* `` X \<and> distinct topo' \<and> operands_first h topo')"

text \<open>
  What a closure adds, as a list of operand and factor: the call adds the factor times
  the node's gradient to the operand.  \<open>local_derivative h v u\<close> is the sum of the factors
  with which node \<open>v\<close> contributes to \<open>u\<close>.
\<close>

fun contributions :: "heap \<Rightarrow> closure \<Rightarrow> (addr \<times> real) list" where
  "contributions h NoOp = []"
| "contributions h (AddBackward self other out) = [(self, 1), (other, 1)]"
| "contributions h (MulBackward self other out) =
     [(self, data (h ! other)), (other, data (h ! self))]"
| "contributions h (PowBackward self other out) =
     [(self, of_int other * data (h ! self) powi (other - 1))]"
| "contributions h (ReluBackward self out) = [(self, if data (h ! out) > 0 then 1 else 0)]"

definition local_derivative :: "heap \<Rightarrow> addr \<Rightarrow> addr \<Rightarrow> real" where
  "local_derivative h v u =
     (\<Sum>(t, w) \<leftarrow> contributions h (backward_fn (h ! v)). if t = u then w else 0)"

text \<open>The closures whose call raises: a power rule at base 0 with an exponent below 1.\<close>

fun raises :: "heap \<Rightarrow> closure \<Rightarrow> bool" where
  "raises h (PowBackward self other out) = (data (h ! self) = 0 \<and> other < 1)"
| "raises h _ = False"

text \<open>No closure that the backward pass from \<open>r\<close> calls raises.\<close>

definition never_raises :: "heap \<Rightarrow> addr \<Rightarrow> bool" where
  "never_raises h r = (\<forall>v\<in>reachable h r. \<not> raises h (backward_fn (h ! v)))"

text \<open>The heap without its gradients: what a backward pass leaves as it is.\<close>

definition erase_grad :: "heap \<Rightarrow> heap" where
  "erase_grad h = map (\<lambda>n. n\<lparr>grad := 0\<rparr>) h"

text \<open>
  What a constructor call may do to the heap: append nodes, all with gradient 0, the
  last of which it returns.  The nodes that were there are as they were.
\<close>

definition extends_heap :: "heap \<Rightarrow> addr \<times> heap \<Rightarrow> bool" where
  "extends_heap h res =
     (\<exists>new. snd res = h @ new \<and> new \<noteq> [] \<and> fst res = length h + length new - 1 \<and>
            (\<forall>n\<in>set new. grad n = 0))"

text \<open>The node of \<^verbatim>\<open>Value(x)\<close>.\<close>

definition leaf :: "real \<Rightarrow> node" where
  "leaf x = \<lparr>data = x, grad = 0, backward_fn = NoOp, prev = {}, op_tag = []\<rparr>"

section \<open>The derived operators as compositions\<close>










text \<open>
  The gradients \<open>g\<close> solve the equations of the backward pass over the nodes \<open>S\<close> from the
  start \<open>g0\<close>: each is its start plus the contributions of its consumers in \<open>S\<close>.
\<close>

definition adjoint_sol :: "heap \<Rightarrow> addr set \<Rightarrow> (addr \<Rightarrow> real) \<Rightarrow> (addr \<Rightarrow> real) \<Rightarrow> bool" where
  "adjoint_sol h S g0 g =
     (\<forall>u<length h. g u = g0 u + (\<Sum>v\<in>S. local_derivative h v u * g v))"

text \<open>
  What is reachable from a set of nodes.
\<close>

definition reach_all :: "heap \<Rightarrow> addr set \<Rightarrow> addr set" where
  "reach_all h T = (\<Union>t\<in>T. reachable h t)"

text \<open>
  The nodes that an operator appends, newest first: each refers to older nodes only, and
  its closure does not raise.  Taking them off one by one, \<open>peel_targets\<close> are the nodes of
  \<open>h\<close> that the pass enters through, and \<open>peel_seed\<close> is what the new nodes add to their
  gradients.
\<close>

fun fresh_ok :: "heap \<Rightarrow> node list \<Rightarrow> bool" where
  "fresh_ok h [] = True"
| "fresh_ok h (n # rest) =
     (fresh_ok h rest \<and> (\<forall>c\<in>prev n. c < length h + length rest) \<and>
      closure_ok (length h + length rest) (prev n) (backward_fn n) \<and>
      \<not> raises (h @ rev rest @ [n]) (backward_fn n))"

fun peel_targets :: "heap \<Rightarrow> node list \<Rightarrow> addr set \<Rightarrow> addr set" where
  "peel_targets h [] T = T"
| "peel_targets h (n # rest) T =
     (if length h + length rest \<in> T
      then peel_targets h rest (prev n \<union> (T - {length h + length rest}))
      else peel_targets h rest T)"

fun peel_seed :: "heap \<Rightarrow> node list \<Rightarrow> addr set \<Rightarrow> (addr \<Rightarrow> real) \<Rightarrow> addr \<Rightarrow> real" where
  "peel_seed h [] T g0 = g0"
| "peel_seed h (n # rest) T g0 =
     (if length h + length rest \<in> T
      then peel_seed h rest (prev n \<union> (T - {length h + length rest}))
             (\<lambda>u. g0 u + local_derivative (h @ rev rest @ [n]) (length h + length rest) u *
                           g0 (length h + length rest))
      else peel_seed h rest T g0)"

text \<open>
  The backward pass from the result \<open>res\<close> returns, and on \<open>h\<close> it is the pass that enters
  through \<open>T\<close> with \<open>d\<close> added to the gradients.
\<close>

definition injects ::
  "(addr set \<Rightarrow> addr list) \<Rightarrow> heap \<Rightarrow> addr set \<Rightarrow> (addr \<Rightarrow> real) \<Rightarrow> addr \<times> heap \<Rightarrow> bool" where
  "injects iter h T d res =
     (\<exists>h'. Value_backward iter (fst res) (snd res) = Some (Inr h') \<and> grad (h' ! fst res) = 1 \<and>
        adjoint_sol h (reach_all h T) (\<lambda>u. grad (h ! u) + d u) (\<lambda>u. grad (h' ! u)))"



section \<open>Example programs\<close>

text \<open>
  The programs of the engine's test scenarios, each started in an arbitrary heap \<open>h0\<close>.
  \<^verbatim>\<open>a = Value(x); b = a*a; c = a*a; out = b + c\<close>
\<close>

definition diamond :: "real \<Rightarrow> heap \<Rightarrow> addr \<times> addr \<times> heap" where
  "diamond x h0 =
     (let (a, h) = Value_init x [] [] h0;
          (b, h) = Value_mul a (Ref a) h;
          (c, h) = Value_mul a (Ref a) h;
          (out, h) = Value_add b (Ref c) h
      in (a, out, h))"

text \<open>\<^verbatim>\<open>a = Value(x); b = Value(y); out = a*b\<close>\<close>

definition product_graph :: "real \<Rightarrow> real \<Rightarrow> heap \<Rightarrow> addr \<times> addr \<times> addr \<times> heap" where
  "product_graph x y h0 =
     (let (a, h) = Value_init x [] [] h0;
          (b, h) = Value_init y [] [] h;
          (out, h) = Value_mul a (Ref b) h
      in (a, b, out, h))"

text \<open>\<^verbatim>\<open>a = Value(x); out = a**k\<close>\<close>

definition power_graph :: "real \<Rightarrow> int \<Rightarrow> heap \<Rightarrow> error + addr \<times> addr \<times> heap" where
  "power_graph x k h0 =
     (let (a, h) = Value_init x [] [] h0
      in case Value_pow a (IntLit k) h of
           Inl e \<Rightarrow> Inl e
         | Inr (out, h) \<Rightarrow> Inr (a, out, h))"

text \<open>\<^verbatim>\<open>a = Value(x); out = a.relu()\<close>\<close>

definition relu_graph :: "real \<Rightarrow> heap \<Rightarrow> addr \<times> addr \<times> heap" where
  "relu_graph x h0 =
     (let (a, h) = Value_init x [] [] h0;
          (out, h) = Value_relu a h
      in (a, out, h))"

text \<open>\<^verbatim>\<open>a = Value(2); b = Value(-3)\<close> in the empty heap.\<close>

definition two_leaves :: heap where
  "two_leaves = snd (Value_init (- 3) [] [] (snd (Value_init 2 [] [] [])))"

text \<open>\<^verbatim>\<open>a = Value(x); b = a.relu(); out = b.relu()\<close>\<close>

definition relu_chain :: "real \<Rightarrow> heap \<Rightarrow> addr \<times> addr \<times> heap" where
  "relu_chain x h0 =
     (let (a, h) = Value_init x [] [] h0;
          (b, h) = Value_relu a h;
          (out, h) = Value_relu b h
      in (a, out, h))"

text \<open>\<^verbatim>\<open>out.backward(); out.backward()\<close>\<close>

definition backward_twice ::
    "(addr set \<Rightarrow> addr list) \<Rightarrow> addr \<Rightarrow> heap \<Rightarrow> (error + heap) option" where
  "backward_twice iter self h =
     (case Value_backward iter self h of
        Some (Inr h1) \<Rightarrow> Value_backward iter self h1
      | res \<Rightarrow> res)"

text \<open>The gradients of all nodes after a backward pass, in the order of the heap.\<close>

definition gradients :: "(error + heap) option \<Rightarrow> (error + real list) option" where
  "gradients res = map_option (map_sum id (map grad)) res"

text \<open>The heaps of the product \<open>2 * -3\<close> and of \<open>relu(relu(5))\<close>, built in the empty heap.\<close>

definition product_heap :: heap where
  "product_heap = snd (snd (snd (product_graph 2 (- 3) [])))"

definition relu_chain_heap :: heap where
  "relu_chain_heap = snd (snd (relu_chain 5 []))"

text \<open>The heap of \<^verbatim>\<open>a = Value(0)\<close>, and that of \<^verbatim>\<open>a = Value(0); out = a**0\<close>.\<close>

definition zero_leaf :: heap where
  "zero_leaf = snd (Value_init 0 [] [] [])"

definition zero_power_heap :: heap where
  "zero_power_heap =
     [\<lparr>data = 0, grad = 0, backward_fn = NoOp, prev = {}, op_tag = []\<rparr>,
      \<lparr>data = 1, grad = 0, backward_fn = PowBackward 0 0 1, prev = {0}, op_tag = ''**0''\<rparr>]"

text \<open>A layer of one neuron and a layer of two, over the weight 2 and the bias -3.\<close>

definition example_neuron :: neuron where
  "example_neuron = \<lparr>neuron_w = [0], neuron_b = 1, nonlin = True\<rparr>"

definition one_neuron_layer :: layer where
  "one_neuron_layer = \<lparr>neurons = [example_neuron]\<rparr>"

definition two_neuron_layer :: layer where
  "two_neuron_layer = \<lparr>neurons = [example_neuron, example_neuron]\<rparr>"

section \<open>Basic facts\<close>

subsection \<open>Iteration orders and the operators\<close>

lemma iter_ok_sorted_list_of_set: "iter_ok sorted_list_of_set"
  by (simp add: iter_ok_def)

lemma iter_empty: "iter_ok iter \<Longrightarrow> iter {} = []"
  by (auto simp: iter_ok_def)

lemma iter_single: 
  assumes "iter_ok iter" shows "iter {a} = [a]"
proof -
  from assms have s: "set (iter {a}) = {a}" and d: "distinct (iter {a})"
    by (auto simp: iter_ok_def)
  show ?thesis
  proof (cases "iter {a}")
    case Nil
    with s show ?thesis by simp
  next
    case (Cons x xs)
    with s d have "x = a" "set xs \<subseteq> {a}" "a \<notin> set xs" by auto
    then have "xs = []" by (cases xs) auto
    with Cons \<open>x = a\<close> show ?thesis by simp
  qed
qed

lemma iter_pair:
  assumes "iter_ok iter" "a \<noteq> b"
  shows "iter {a, b} = [a, b] \<or> iter {a, b} = [b, a]"
proof -
  from assms have s: "set (iter {a, b}) = {a, b}" and d: "distinct (iter {a, b})"
    by (auto simp: iter_ok_def)
  show ?thesis
  proof (cases "iter {a, b}")
    case Nil
    with s show ?thesis by simp
  next
    case (Cons x xs)
    note c1 = Cons
    show ?thesis
    proof (cases xs)
      case Nil
      with c1 s assms(2) show ?thesis by auto
    next
      case (Cons y ys)
      with c1 s d have xy: "x \<noteq> y" "x \<in> {a, b}" "y \<in> {a, b}" "set ys \<subseteq> {a, b}"
        "x \<notin> set ys" "y \<notin> set ys" by auto
      then have "ys = []" by (cases ys) auto
      with xy c1 Cons show ?thesis by auto
    qed
  qed
qed

lemma Value_mul_Ref:
  "a < length h \<Longrightarrow> b < length h \<Longrightarrow> Value_mul a (Ref b) h =
     (length h, h @ [\<lparr>data = data (h ! a) * data (h ! b), grad = 0,
        backward_fn = MulBackward a b (length h), prev = {a, b}, op_tag = ''*''\<rparr>])"
  by (simp add: Value_mul_def Value_init_def set_backward_def nth_append)

lemma Value_mul_Num:
  "a < length h \<Longrightarrow> Value_mul a (Num x) h =
     (Suc (length h),
      h @ [\<lparr>data = x, grad = 0, backward_fn = NoOp, prev = {}, op_tag = []\<rparr>,
           \<lparr>data = data (h ! a) * x, grad = 0,
            backward_fn = MulBackward a (length h) (Suc (length h)),
            prev = {a, length h}, op_tag = ''*''\<rparr>])"
  by (simp add: Value_mul_def Value_init_def set_backward_def nth_append)

lemma Value_add_Ref:
  "a < length h \<Longrightarrow> b < length h \<Longrightarrow> Value_add a (Ref b) h =
     (length h, h @ [\<lparr>data = data (h ! a) + data (h ! b), grad = 0,
        backward_fn = AddBackward a b (length h), prev = {a, b}, op_tag = ''+''\<rparr>])"
  by (simp add: Value_add_def Value_init_def set_backward_def nth_append)

lemma Value_add_Num:
  "a < length h \<Longrightarrow> Value_add a (Num x) h =
     (Suc (length h),
      h @ [\<lparr>data = x, grad = 0, backward_fn = NoOp, prev = {}, op_tag = []\<rparr>,
           \<lparr>data = data (h ! a) + x, grad = 0,
            backward_fn = AddBackward a (length h) (Suc (length h)),
            prev = {a, length h}, op_tag = ''+''\<rparr>])"
  by (simp add: Value_add_def Value_init_def set_backward_def nth_append)

lemma Value_relu_eq:
  "a < length h \<Longrightarrow> Value_relu a h =
     (length h, h @ [\<lparr>data = (if data (h ! a) < 0 then 0 else data (h ! a)), grad = 0,
        backward_fn = ReluBackward a (length h), prev = {a}, op_tag = ''ReLU''\<rparr>])"
  by (simp add: Value_relu_def Value_init_def set_backward_def nth_append)

lemma Value_pow_IntLit:
  "a < length h \<Longrightarrow> data (h ! a) \<noteq> 0 \<or> 0 \<le> k \<Longrightarrow> Value_pow a (IntLit k) h =
     Inr (length h, h @ [\<lparr>data = data (h ! a) powi k, grad = 0,
        backward_fn = PowBackward a k (length h), prev = {a}, op_tag = ''**'' @ str_int k\<rparr>])"
  by (auto simp add: Value_pow_def py_pow_def Value_init_def set_backward_def nth_append)

subsection \<open>Traversal orders\<close>

lemma operands_first_snoc [simp]:
  "operands_first h (xs @ [v]) = (prev (h ! v) \<subseteq> set xs \<and> operands_first h xs)"
  by (simp add: operands_first_def)

lemma operands_first_Nil [simp]: "operands_first h []"
  by (simp add: operands_first_def)

lemma operands_first_closed:
  "operands_first h xs \<Longrightarrow> v \<in> set xs \<Longrightarrow> prev (h ! v) \<subseteq> set xs"
  by (induction xs rule: rev_induct) auto

lemma operands_first_nth:
  "operands_first h xs \<Longrightarrow> i < length xs \<Longrightarrow> prev (h ! (xs ! i)) \<subseteq> set (take i xs)"
proof (induction xs rule: rev_induct)
  case Nil
  then show ?case by simp
next
  case (snoc x xs)
  show ?case
  proof (cases "i < length xs")
    case True
    with snoc show ?thesis by (simp add: nth_append)
  next
    case False
    with snoc.prems have "i = length xs" by simp
    with snoc.prems show ?thesis by simp
  qed
qed

lemma refs_ok_finite: "refs_ok h \<Longrightarrow> v < length h \<Longrightarrow> finite (prev (h ! v))"
  unfolding refs_ok_def by (meson bounded_nat_set_is_finite)

lemma iter_set: "iter_ok iter \<Longrightarrow> refs_ok h \<Longrightarrow> v < length h \<Longrightarrow> set (iter (prev (h ! v))) = prev (h ! v)"
  using refs_ok_finite by (auto simp: iter_ok_def)

subsection \<open>build_topo returns\<close>

lemma build_children_returns_aux:
  assumes topo: "\<And>v vis topo. v < length h \<Longrightarrow> card ({..<length h} - vis) < n \<Longrightarrow>
      \<exists>vis' topo'. build_topo iter n h v (vis, topo) = Some (vis', topo') \<and> vis \<subseteq> vis'"
  shows "set cs \<subseteq> {..<length h} \<Longrightarrow> card ({..<length h} - vis) < n \<Longrightarrow>
      \<exists>vis' topo'. build_children iter n h cs (vis, topo) = Some (vis', topo') \<and> vis \<subseteq> vis'"
proof (induction cs arbitrary: vis topo)
  case Nil
  then show ?case by simp
next
  case (Cons c cs)
  from Cons.prems have "c < length h" by simp
  from topo[OF this Cons.prems(2)] obtain vis1 topo1 where
    1: "build_topo iter n h c (vis, topo) = Some (vis1, topo1)" and sub: "vis \<subseteq> vis1" by blast
  from sub have "card ({..<length h} - vis1) \<le> card ({..<length h} - vis)"
    by (intro card_mono) auto
  with Cons.prems have "card ({..<length h} - vis1) < n" by simp
  with Cons.IH[of vis1 topo1] Cons.prems obtain vis2 topo2 where
    2: "build_children iter n h cs (vis1, topo1) = Some (vis2, topo2)" and "vis1 \<subseteq> vis2" by auto
  with 1 sub show ?case by auto
qed

lemma build_topo_returns_aux:
  assumes "iter_ok iter" "refs_ok h"
  shows "v < length h \<Longrightarrow> card ({..<length h} - vis) < n \<Longrightarrow>
      \<exists>vis' topo'. build_topo iter n h v (vis, topo) = Some (vis', topo') \<and> vis \<subseteq> vis'"
proof (induction n arbitrary: v vis topo)
  case 0
  then show ?case by simp
next
  case (Suc n)
  show ?case
  proof (cases "v \<in> vis")
    case True
    then show ?thesis by simp
  next
    case False
    let ?U = "{..<length h} - vis"
    have "?U - {v} = {..<length h} - insert v vis" by auto
    moreover have "v \<in> ?U" using False Suc.prems by simp
    then have "card (?U - {v}) < card ?U"
      by (intro card_Diff1_less) auto
    ultimately have small: "card ({..<length h} - insert v vis) < n"
      using Suc.prems by simp
    have cs: "set (iter (prev (h ! v))) \<subseteq> {..<length h}"
      using iter_set[OF assms Suc.prems(1)] assms(2) Suc.prems(1) by (auto simp: refs_ok_def)
    from build_children_returns_aux[where topo = topo, OF Suc.IH cs small]
    obtain vis' topo' where
      "build_children iter n h (iter (prev (h ! v))) (insert v vis, topo) = Some (vis', topo')"
      "insert v vis \<subseteq> vis'" by blast
    with False show ?thesis by auto
  qed
qed

lemma build_topo_returns:
  assumes "iter_ok iter" "refs_ok h" "r < length h"
  shows "\<exists>st. build_topo iter (Suc (length h)) h r ({}, []) = Some st"
  using build_topo_returns_aux[OF assms(1,2,3), of "{}" "Suc (length h)" "[]"] by auto

subsection \<open>What build_topo computes\<close>

lemma reach_closed:
  assumes "operands_first h topo" "(v, u) \<in> (edges h)\<^sup>*" "v \<in> set topo"
  shows "u \<in> set topo"
  using assms(2,3)
proof (induction rule: rtrancl_induct)
  case base
  then show ?case .
next
  case (step y z)
  then have "z \<in> prev (h ! y)" by (simp add: edges_def)
  with operands_first_closed[OF assms(1)] step show ?case by blast
qed

lemma reach_step: "(edges h)\<^sup>* `` {v} = insert v ((edges h)\<^sup>* `` (edges h `` {v}))"
proof (intro set_eqI iffI)
    fix u assume "u \<in> (edges h)\<^sup>* `` {v}"
    then have "(v, u) \<in> (edges h)\<^sup>*" by simp
    then show "u \<in> insert v ((edges h)\<^sup>* `` (edges h `` {v}))"
      by (cases rule: converse_rtranclE) auto
  next
    fix u assume "u \<in> insert v ((edges h)\<^sup>* `` (edges h `` {v}))"
    then show "u \<in> (edges h)\<^sup>* `` {v}"
      by (auto intro: converse_rtrancl_into_rtrancl)
qed

lemma build_children_post_aux:
  assumes acyc: "acyclic (edges h)"
    and topo: "\<And>v vis topo vis' topo'. build_topo iter n h v (vis, topo) = Some (vis', topo') \<Longrightarrow>
       v < length h \<Longrightarrow> dfs_pre h vis topo {v} \<Longrightarrow> dfs_post h vis topo {v} vis' topo'"
  shows "build_children iter n h cs (vis, topo) = Some (vis', topo') \<Longrightarrow>
       set cs \<subseteq> {..<length h} \<Longrightarrow> dfs_pre h vis topo (set cs) \<Longrightarrow>
       dfs_post h vis topo (set cs) vis' topo'"
proof (induction cs arbitrary: vis topo)
  case Nil
  then show ?case by (auto simp: dfs_post_def dfs_pre_def)
next
  case (Cons c cs)
  from Cons.prems(1) obtain vis1 topo1 where
    1: "build_topo iter n h c (vis, topo) = Some (vis1, topo1)" and
    2: "build_children iter n h cs (vis1, topo1) = Some (vis', topo')"
    by (auto split: option.splits)
  from Cons.prems have c: "c < length h" and cs: "set cs \<subseteq> {..<length h}" by auto
  from Cons.prems(3) have pre1: "dfs_pre h vis topo {c}" by (auto simp: dfs_pre_def)
  from topo[OF 1 c pre1] have post1: "dfs_post h vis topo {c} vis1 topo1" .
  have pre2: "dfs_pre h vis1 topo1 (set cs)"
    using post1 Cons.prems(3) unfolding dfs_pre_def dfs_post_def by auto
  from Cons.IH[OF 2 cs pre2] have post2: "dfs_post h vis1 topo1 (set cs) vis' topo'" .
  have "(edges h)\<^sup>* `` set (c # cs) = (edges h)\<^sup>* `` {c} \<union> (edges h)\<^sup>* `` set cs"
    by auto
  with post1 post2 show ?case
    unfolding dfs_post_def by auto
qed

lemma build_topo_post_aux:
  assumes ok: "iter_ok iter" "refs_ok h" and acyc: "acyclic (edges h)"
  shows "build_topo iter n h v (vis, topo) = Some (vis', topo') \<Longrightarrow>
       v < length h \<Longrightarrow> dfs_pre h vis topo {v} \<Longrightarrow> dfs_post h vis topo {v} vis' topo'"
proof (induction n arbitrary: v vis topo vis' topo')
  case 0
  then show ?case by simp
next
  case (Suc n)
  let ?E = "edges h"
  from Suc.prems(3) have sub: "set topo \<subseteq> vis" and dist: "distinct topo"
    and opf: "operands_first h topo"
    and stack: "\<forall>s\<in>vis - set topo. (s, v) \<in> ?E\<^sup>+"
    by (auto simp: dfs_pre_def)
  have nocycle: "\<And>x. (x, x) \<notin> ?E\<^sup>+" using acyc by (simp add: acyclic_def)
  show ?case
  proof (cases "v \<in> vis")
    case True
    with Suc.prems(1) have same: "vis' = vis" "topo' = topo" by auto
    from True stack nocycle have "v \<in> set topo" by blast
    have "?E\<^sup>* `` {v} \<subseteq> set topo"
      using reach_closed[OF opf _ \<open>v \<in> set topo\<close>] by auto
    with sub dist opf show ?thesis unfolding same dfs_post_def by auto
  next
    case False
    let ?cs = "iter (prev (h ! v))"
    from False Suc.prems(1) obtain vis1 topo1 where
      ch: "build_children iter n h ?cs (insert v vis, topo) = Some (vis1, topo1)"
      and res: "vis' = vis1" "topo' = topo1 @ [v]"
      by (auto split: option.splits)
    have setcs: "set ?cs = prev (h ! v)" by (rule iter_set[OF ok Suc.prems(2)])
    then have csE: "set ?cs = ?E `` {v}" using Suc.prems(2) by (auto simp: edges_def)
    have cs: "set ?cs \<subseteq> {..<length h}"
      using setcs ok(2) Suc.prems(2) by (auto simp: refs_ok_def)
    have vtopo: "v \<notin> set topo" using False sub by auto
    have pre: "dfs_pre h (insert v vis) topo (set ?cs)"
      unfolding dfs_pre_def
    proof (intro conjI ballI)
      show "set topo \<subseteq> insert v vis" using sub by auto
      show "distinct topo" by (rule dist)
      show "operands_first h topo" by (rule opf)
    next
      fix s x assume s: "s \<in> insert v vis - set topo" and x: "x \<in> set ?cs"
      from x csE have vx: "(v, x) \<in> ?E" by auto
      show "(s, x) \<in> ?E\<^sup>+"
      proof (cases "s = v")
        case True
        with vx show ?thesis by auto
      next
        case False
        with s stack have "(s, v) \<in> ?E\<^sup>+" by auto
        then show ?thesis using vx by (rule trancl_into_trancl)
      qed
    qed
    from build_children_post_aux[OF acyc Suc.IH ch cs pre]
    have post: "dfs_post h (insert v vis) topo (set ?cs) vis1 topo1" by blast
    have reach: "?E\<^sup>* `` {v} = insert v (?E\<^sup>* `` set ?cs)"
      unfolding csE by (rule reach_step)
    have vnot: "v \<notin> ?E\<^sup>* `` set ?cs"
    proof
      assume "v \<in> ?E\<^sup>* `` set ?cs"
      then obtain c where "(v, c) \<in> ?E" "(c, v) \<in> ?E\<^sup>*" using csE by auto
      then have "(v, v) \<in> ?E\<^sup>+" by (rule rtrancl_into_trancl2)
      with nocycle show False by blast
    qed
    from post have t1: "set topo1 = set topo \<union> ?E\<^sup>* `` set ?cs"
      and v1: "vis1 = insert v vis \<union> ?E\<^sup>* `` set ?cs"
      and d1: "distinct topo1" and o1: "operands_first h topo1"
      and ex: "\<exists>new. topo1 = topo @ new"
      by (auto simp: dfs_post_def)
    have "prev (h ! v) \<subseteq> set topo1" using t1 setcs by auto
    with t1 v1 d1 o1 ex vtopo vnot reach show ?thesis
      unfolding dfs_post_def res by auto
  qed
qed

subsection \<open>The backward pass as a system of equations\<close>

lemma erase_grad_length: "erase_grad h = erase_grad h0 \<Longrightarrow> length h = length h0"
  unfolding erase_grad_def by (rule map_eq_imp_length_eq)

lemma erase_grad_nth:
  assumes "erase_grad h = erase_grad h0" "u < length h0"
  shows "data (h ! u) = data (h0 ! u)" "backward_fn (h ! u) = backward_fn (h0 ! u)"
    "prev (h ! u) = prev (h0 ! u)" "op_tag (h ! u) = op_tag (h0 ! u)"
proof -
  have len: "length h = length h0" using assms(1) by (rule erase_grad_length)
  have "erase_grad h ! u = erase_grad h0 ! u" using assms(1) by simp
  then have eq: "(h ! u)\<lparr>grad := 0\<rparr> = (h0 ! u)\<lparr>grad := 0\<rparr>"
    using assms(2) len by (simp add: erase_grad_def)
  from arg_cong[OF eq, of data] show "data (h ! u) = data (h0 ! u)" by simp
  from arg_cong[OF eq, of backward_fn] show "backward_fn (h ! u) = backward_fn (h0 ! u)" by simp
  from arg_cong[OF eq, of prev] show "prev (h ! u) = prev (h0 ! u)" by simp
  from arg_cong[OF eq, of op_tag] show "op_tag (h ! u) = op_tag (h0 ! u)" by simp
qed

lemma erase_grad_update [simp]: "erase_grad (h[v := (h ! v)\<lparr>grad := x\<rparr>]) = erase_grad h"
proof (cases "v < length h")
  case True
  then have "(map (\<lambda>n. n\<lparr>grad := 0\<rparr>) h)[v := (h ! v)\<lparr>grad := 0\<rparr>] = map (\<lambda>n. n\<lparr>grad := 0\<rparr>) h"
    by (simp add: list_update_same_conv)
  then show ?thesis by (simp add: erase_grad_def map_update)
next
  case False
  then have "h[v := (h ! v)\<lparr>grad := x\<rparr>] = h" by (intro list_update_beyond) simp
  then show ?thesis by simp
qed

lemma erase_grad_add_grad [simp]: "erase_grad (add_grad v x h) = erase_grad h"
  by (simp add: add_grad_def)

lemma grad_add_grad:
  "u < length h \<Longrightarrow> grad (add_grad v x h ! u) = grad (h ! u) + (if u = v then x else 0)"
  by (simp add: add_grad_def nth_list_update)

lemma data_add_grad [simp]: "data (add_grad v x h ! u) = data (h ! u)"
proof (cases "v < length h")
  case True
  then show ?thesis by (auto simp: add_grad_def nth_list_update)
next
  case False
  then have "add_grad v x h = h" unfolding add_grad_def by (intro list_update_beyond) simp
  then show ?thesis by simp
qed


lemma length_add_grad [simp]: "length (add_grad v x h) = length h"
  by (simp add: add_grad_def)

lemma local_derivative_zero:
  "closure_ok v (prev (h ! v)) (backward_fn (h ! v)) \<Longrightarrow> u \<notin> prev (h ! v) \<Longrightarrow> local_derivative h v u = 0"
  by (cases "backward_fn (h ! v)") (auto simp: local_derivative_def)

lemma call_backward_adds:
  assumes same: "erase_grad h = erase_grad h0" and v: "v < length h0"
    and ok: "closure_ok v (prev (h0 ! v)) (backward_fn (h0 ! v))" and self: "v \<notin> prev (h0 ! v)"
    and nr: "\<not> raises h0 (backward_fn (h0 ! v))"
    and refs: "\<forall>c\<in>prev (h0 ! v). c < length h0"
  shows "\<exists>h'. call_backward (backward_fn (h0 ! v)) h = Inr h' \<and> erase_grad h' = erase_grad h0 \<and>
           (\<forall>u<length h0. grad (h' ! u) = grad (h ! u) + local_derivative h0 v u * grad (h ! v))"
proof -
  have len: "length h = length h0" using same by (rule erase_grad_length)
  note d = erase_grad_nth(1)[OF same]
  show ?thesis
  proof (cases "backward_fn (h0 ! v)")
    case NoOp
    then show ?thesis using same by (simp add: local_derivative_def)
  next
    case (AddBackward a b out)
    with ok self have "out = v" "a \<noteq> v" "b \<noteq> v" by auto
    with AddBackward same len v show ?thesis
      by (auto simp: local_derivative_def Let_def grad_add_grad algebra_simps)
  next
    case (MulBackward a b out)
    with ok self refs have "out = v" "a \<noteq> v" "b \<noteq> v" "a < length h0" "b < length h0" by auto
    with MulBackward same len v d[of a] d[of b] show ?thesis
      by (auto simp: local_derivative_def Let_def grad_add_grad algebra_simps)
  next
    case (PowBackward a k out)
    with ok self refs have "out = v" "a \<noteq> v" "a < length h0" by auto
    with PowBackward same len v nr d[of a] show ?thesis
      by (auto simp: local_derivative_def Let_def grad_add_grad algebra_simps py_pow_def)
  next
    case (ReluBackward a out)
    with ok self have "out = v" "a \<noteq> v" by auto
    with ReluBackward same len v d[of v] show ?thesis
      by (auto simp: local_derivative_def Let_def grad_add_grad algebra_simps)
  qed
qed


lemma consumers_first_closed:
  "consumers_first h Q \<Longrightarrow> v \<in> set Q \<Longrightarrow> prev (h ! v) \<subseteq> set Q"
  by (induction Q) auto

lemma run_backward_adjoint:
  assumes refs: "refs_ok h0" and cl: "closures_ok h0"
  shows "distinct Q \<Longrightarrow> consumers_first h0 Q \<Longrightarrow> set Q \<subseteq> {..<length h0} \<Longrightarrow>
     \<forall>v\<in>set Q. \<not> raises h0 (backward_fn (h0 ! v)) \<Longrightarrow> erase_grad h = erase_grad h0 \<Longrightarrow>
     \<exists>h'. run_backward Q h = Inr h' \<and> erase_grad h' = erase_grad h0 \<and>
        (\<forall>u<length h0. grad (h' ! u) =
           grad (h ! u) + (\<Sum>v\<leftarrow>Q. local_derivative h0 v u * grad (h' ! v)))"
proof (induction Q arbitrary: h)
  case Nil
  then show ?case by simp
next
  case (Cons x Q)
  from Cons.prems have x: "x < length h0" and xQ: "x \<notin> set Q" and px: "prev (h0 ! x) \<subseteq> set Q"
    by auto
  have okx: "closure_ok x (prev (h0 ! x)) (backward_fn (h0 ! x))" using cl x by (simp add: closures_ok_def)
  have selfx: "x \<notin> prev (h0 ! x)" using px xQ by auto
  have refx: "\<forall>c\<in>prev (h0 ! x). c < length h0" using refs x by (simp add: refs_ok_def)
  have nrx: "\<not> raises h0 (backward_fn (h0 ! x))" using Cons.prems(4) by simp
  from call_backward_adds[OF Cons.prems(5) x okx selfx nrx refx] obtain h1 where
    c1: "call_backward (backward_fn (h0 ! x)) h = Inr h1" and e1: "erase_grad h1 = erase_grad h0"
    and g1: "\<forall>u<length h0. grad (h1 ! u) = grad (h ! u) + local_derivative h0 x u * grad (h ! x)"
    by blast
  from Cons.prems have "distinct Q" "consumers_first h0 Q" "set Q \<subseteq> {..<length h0}"
    "\<forall>v\<in>set Q. \<not> raises h0 (backward_fn (h0 ! v))" by auto
  from Cons.IH[OF this e1] obtain h' where
    r: "run_backward Q h1 = Inr h'" and e': "erase_grad h' = erase_grad h0"
    and g': "\<forall>u<length h0. grad (h' ! u) =
           grad (h1 ! u) + (\<Sum>v\<leftarrow>Q. local_derivative h0 v u * grad (h' ! v))"
    by blast
  have zero: "local_derivative h0 v x = 0" if "v \<in> set Q" for v
  proof -
    from that Cons.prems(3) have "v < length h0" by auto
    then have "closure_ok v (prev (h0 ! v)) (backward_fn (h0 ! v))" using cl by (simp add: closures_ok_def)
    moreover have "x \<notin> prev (h0 ! v)"
      using consumers_first_closed[OF \<open>consumers_first h0 Q\<close> that] xQ by auto
    ultimately show ?thesis by (rule local_derivative_zero)
  qed
  have "(\<Sum>v\<leftarrow>Q. local_derivative h0 v x * grad (h' ! v)) = (\<Sum>v\<leftarrow>Q. 0)"
    by (rule arg_cong[where f = sum_list], rule map_cong) (auto simp: zero)
  then have sumx: "(\<Sum>v\<leftarrow>Q. local_derivative h0 v x * grad (h' ! v)) = 0" by simp
  have "local_derivative h0 x x = 0" using okx selfx by (rule local_derivative_zero)
  with g1 g' x sumx have gx: "grad (h' ! x) = grad (h ! x)" by simp
  have bf: "backward_fn (h ! x) = backward_fn (h0 ! x)"
    using erase_grad_nth(2)[OF Cons.prems(5) x] .
  have "run_backward (x # Q) h = Inr h'" using c1 r bf by simp
  moreover have "\<forall>u<length h0. grad (h' ! u) =
      grad (h ! u) + (\<Sum>v\<leftarrow>x # Q. local_derivative h0 v u * grad (h' ! v))"
    using g1 g' gx by (simp add: algebra_simps)
  ultimately show ?case using e' by blast
qed

lemma backward_adjoint:
  assumes it: "iter_ok iter" and refs: "refs_ok h" and cl: "closures_ok h"
    and acyc: "acyclic (edges h)" and r: "r < length h"
    and nr: "\<forall>v\<in>reachable h r. \<not> raises h (backward_fn (h ! v))"
  shows "\<exists>h'. Value_backward iter r h = Some (Inr h') \<and> erase_grad h' = erase_grad h \<and>
     grad (h' ! r) = 1 \<and>
     (\<forall>u<length h. u \<noteq> r \<longrightarrow> grad (h' ! u) =
         grad (h ! u) + (\<Sum>v\<in>reachable h r. local_derivative h v u * grad (h' ! v)))"
proof -
  from build_topo_returns[OF it refs r] obtain visited topo where
    bt: "build_topo iter (Suc (length h)) h r ({}, []) = Some (visited, topo)" by auto
  have "dfs_pre h {} [] {r}" by (simp add: dfs_pre_def)
  from build_topo_post_aux[OF it refs acyc bt r this]
  have "dfs_post h {} [] {r} visited topo" .
  then have d: "distinct topo" and s: "set topo = reachable h r"
    and o: "operands_first h topo" by (auto simp: dfs_post_def reachable_def)
  have inb: "reachable h r \<subseteq> {..<length h}"
  proof
    fix v assume "v \<in> reachable h r"
    then have "(r, v) \<in> (edges h)\<^sup>*" by (simp add: reachable_def)
    then show "v \<in> {..<length h}"
      using r refs by (induction rule: rtrancl_induct) (auto simp: edges_def refs_ok_def)
  qed
  let ?h1 = "h[r := (h ! r)\<lparr>grad := 1\<rparr>]"
  have e1: "erase_grad ?h1 = erase_grad h" by simp
  from run_backward_adjoint[OF refs cl, of "rev topo" ?h1] d o s inb nr e1
  obtain h' where run: "run_backward (rev topo) ?h1 = Inr h'"
    and e': "erase_grad h' = erase_grad h"
    and g': "\<forall>u<length h. grad (h' ! u) =
           grad (?h1 ! u) + (\<Sum>v\<leftarrow>rev topo. local_derivative h v u * grad (h' ! v))"
    by (auto simp: operands_first_def)
  have conv: "(\<Sum>v\<leftarrow>rev topo. f v) = (\<Sum>v\<in>reachable h r. f v)" for f :: "addr \<Rightarrow> real"
    using sum_list_distinct_conv_sum_set[of "rev topo" f] d s by simp
  have zero: "local_derivative h v r = 0" if "v \<in> reachable h r" for v
  proof -
    from that inb have "v < length h" by auto
    then have "closure_ok v (prev (h ! v)) (backward_fn (h ! v))" using cl by (simp add: closures_ok_def)
    moreover have "r \<notin> prev (h ! v)"
    proof
      assume "r \<in> prev (h ! v)"
      with \<open>v < length h\<close> have "(v, r) \<in> edges h" by (simp add: edges_def)
      moreover from that have "(r, v) \<in> (edges h)\<^sup>*" by (simp add: reachable_def)
      ultimately have "(r, r) \<in> (edges h)\<^sup>+" by (rule rtrancl_into_trancl1[rotated])
      with acyc show False by (simp add: acyclic_def)
    qed
    ultimately show ?thesis by (rule local_derivative_zero)
  qed
  have "grad (h' ! r) = 1" using g' r conv zero by simp
  moreover have "\<forall>u<length h. u \<noteq> r \<longrightarrow> grad (h' ! u) =
         grad (h ! u) + (\<Sum>v\<in>reachable h r. local_derivative h v u * grad (h' ! v))"
    using g' conv by simp
  moreover have "Value_backward iter r h = Some (Inr h')"
    using bt run by (simp add: Value_backward_def)
  ultimately show ?thesis using e' by blast
qed


subsection \<open>The operators build well-formed graphs\<close>

lemma edges_append:
  "edges (h @ [n]) = edges h \<union> {(length h, c) | c. c \<in> prev n}"
  by (auto simp: edges_def nth_append less_Suc_eq)

lemma acyclic_append:
  assumes ac: "acyclic (edges h)" and refs: "refs_ok h" and n: "\<forall>c\<in>prev n. c < length h"
  shows "acyclic (edges (h @ [n]))"
proof -
  let ?E = "edges h" and ?N = "{(length h, c) | c. c \<in> prev n}"
  have tgt: "y < length h" if "(x, y) \<in> ?E\<^sup>+" for x y
    using that refs by (induction rule: trancl_induct) (auto simp: edges_def refs_ok_def)
  have sup: "(x, y) \<in> ?E\<^sup>+ \<or> (x = length h \<and> y < length h)" if "(x, y) \<in> (?E \<union> ?N)\<^sup>+" for x y
    using that
  proof (induction rule: trancl_induct)
    case (base y)
    then show ?case using n by auto
  next
    case (step y z)
    from step.hyps(2) show ?case
    proof
      assume yz: "(y, z) \<in> ?E"
      from step.IH show ?thesis
      proof
        assume "(x, y) \<in> ?E\<^sup>+"
        then have "(x, z) \<in> ?E\<^sup>+" using yz by (rule trancl_into_trancl)
        then show ?thesis by simp
      next
        assume "x = length h \<and> y < length h"
        moreover from yz refs have "z < length h" by (auto simp: edges_def refs_ok_def)
        ultimately show ?thesis by simp
      qed
    next
      assume "(y, z) \<in> ?N"
      then have "y = length h" by simp
      with step.IH tgt[of x y] show ?thesis by auto
    qed
  qed
  show ?thesis
    unfolding edges_append acyclic_def
  proof
    fix x
    show "(x, x) \<notin> (?E \<union> ?N)\<^sup>+"
    proof
      assume "(x, x) \<in> (?E \<union> ?N)\<^sup>+"
      from sup[OF this] ac show False by (auto simp: acyclic_def)
    qed
  qed
qed

lemma graph_ok_append:
  assumes g: "graph_ok h" and n: "\<forall>c\<in>prev n. c < length h"
    and c: "closure_ok (length h) (prev n) (backward_fn n)"
  shows "graph_ok (h @ [n])"
proof -
  from g have refs: "refs_ok h" and cl: "closures_ok h" and ac: "acyclic (edges h)"
    by (auto simp: graph_ok_def)
  have "refs_ok (h @ [n])"
    using refs n by (auto simp: refs_ok_def nth_append less_Suc_eq)
  moreover have "closures_ok (h @ [n])"
    unfolding closures_ok_def
  proof (intro allI impI)
    fix v assume "v < length (h @ [n])"
    then consider "v < length h" | "v = length h" by fastforce
    then show "closure_ok v (prev ((h @ [n]) ! v)) (backward_fn ((h @ [n]) ! v))"
    proof cases
      case 1
      with cl show ?thesis by (simp add: closures_ok_def nth_append)
    next
      case 2
      with c show ?thesis by simp
    qed
  qed
  moreover have "acyclic (edges (h @ [n]))" using ac refs n by (rule acyclic_append)
  ultimately show ?thesis by (simp add: graph_ok_def)
qed

lemma graph_ok_Nil: "graph_ok []"
  by (simp add: graph_ok_def refs_ok_def closures_ok_def edges_def acyclic_def)

lemma graph_ok_leaf: "graph_ok h \<Longrightarrow> graph_ok (snd (Value_init x [] t h))"
  by (simp add: Value_init_def graph_ok_append)

lemma graph_ok_add: 
  "graph_ok h \<Longrightarrow> a < length h \<Longrightarrow> (\<forall>b. other = Ref b \<longrightarrow> b < length h) \<Longrightarrow>
    graph_ok (snd (Value_add a other h))"
proof (cases other)
  case (Ref b)
  assume "graph_ok h" "a < length h" "\<forall>b. other = Ref b \<longrightarrow> b < length h"
  with Ref show ?thesis by (simp add: Value_add_Ref graph_ok_append)
next
  case (Num x)
  assume g: "graph_ok h" and a: "a < length h"
  let ?l = "\<lparr>data = x, grad = 0, backward_fn = NoOp, prev = {}, op_tag = []\<rparr>"
  have "graph_ok (h @ [?l])" using g by (simp add: graph_ok_append)
  from graph_ok_append[OF this, of "\<lparr>data = data (h ! a) + x, grad = 0,
            backward_fn = AddBackward a (length h) (Suc (length h)),
            prev = {a, length h}, op_tag = ''+''\<rparr>"] a
  show ?thesis using Num by (simp add: Value_add_Num)
qed

lemma graph_ok_mul: 
  "graph_ok h \<Longrightarrow> a < length h \<Longrightarrow> (\<forall>b. other = Ref b \<longrightarrow> b < length h) \<Longrightarrow>
    graph_ok (snd (Value_mul a other h))"
proof (cases other)
  case (Ref b)
  assume "graph_ok h" "a < length h" "\<forall>b. other = Ref b \<longrightarrow> b < length h"
  with Ref show ?thesis by (simp add: Value_mul_Ref graph_ok_append)
next
  case (Num x)
  assume g: "graph_ok h" and a: "a < length h"
  let ?l = "\<lparr>data = x, grad = 0, backward_fn = NoOp, prev = {}, op_tag = []\<rparr>"
  have "graph_ok (h @ [?l])" using g by (simp add: graph_ok_append)
  from graph_ok_append[OF this, of "\<lparr>data = data (h ! a) * x, grad = 0,
            backward_fn = MulBackward a (length h) (Suc (length h)),
            prev = {a, length h}, op_tag = ''*''\<rparr>"] a
  show ?thesis using Num by (simp add: Value_mul_Num)
qed

lemma graph_ok_relu: "graph_ok h \<Longrightarrow> a < length h \<Longrightarrow> graph_ok (snd (Value_relu a h))"
  by (simp add: Value_relu_eq graph_ok_append)

lemma graph_ok_pow:
  "graph_ok h \<Longrightarrow> a < length h \<Longrightarrow> Value_pow a e h = Inr (out, h') \<Longrightarrow> graph_ok h'"
  by (cases e) (auto simp: Value_pow_def py_pow_def Value_init_def set_backward_def nth_append
      graph_ok_append split: if_splits)



subsection \<open>The example programs\<close>

lemma diamond_eq:
  "diamond x [] = (0, 3,
     [\<lparr>data = x, grad = 0, backward_fn = NoOp, prev = {}, op_tag = []\<rparr>,
      \<lparr>data = x * x, grad = 0, backward_fn = MulBackward 0 0 1, prev = {0}, op_tag = ''*''\<rparr>,
      \<lparr>data = x * x, grad = 0, backward_fn = MulBackward 0 0 2, prev = {0}, op_tag = ''*''\<rparr>,
      \<lparr>data = x * x + x * x, grad = 0, backward_fn = AddBackward 1 2 3, prev = {1, 2},
        op_tag = ''+''\<rparr>])"
  by (simp add: diamond_def Value_init_def Value_mul_Ref Value_add_Ref eval_nat_numeral)

lemma append_step: "h @ (x # y # ys) = (h @ [x]) @ (y # ys)"
  by simp

lemma graph_ok_diamond: "graph_ok h0 \<Longrightarrow> graph_ok (snd (snd (diamond x h0)))"
  apply (simp add: diamond_def Value_init_def Value_mul_Ref Value_add_Ref nth_append)
  apply (simp only: append_step)
  apply (intro graph_ok_append)
  apply simp_all
  done

lemma grad_add_grad_other: "u \<noteq> v \<Longrightarrow> grad (add_grad v x h ! u) = grad (h ! u)"
proof (cases "v < length h")
  case True
  assume "u \<noteq> v"
  then show ?thesis by (simp add: add_grad_def nth_list_update)
next
  case False
  then have "add_grad v x h = h" unfolding add_grad_def by (intro list_update_beyond) simp
  then show ?thesis by simp
qed

lemma add_rule:
  assumes "a < length h" "b < length h"
  shows "case Value_add a (Ref b) h of (out, h1) \<Rightarrow>
           data (h1 ! out) = data (h ! a) + data (h ! b) \<and>
           call_backward (backward_fn (h1 ! out)) h2 =
             Inr (add_grad b (grad (h2 ! out)) (add_grad a (grad (h2 ! out)) h2))"
  using assms by (simp add: Value_add_Ref grad_add_grad_other)

lemma mul_rule:
  assumes "a < length h" "b < length h"
  shows "case Value_mul a (Ref b) h of (out, h1) \<Rightarrow>
           data (h1 ! out) = data (h ! a) * data (h ! b) \<and>
           call_backward (backward_fn (h1 ! out)) h2 =
             Inr (add_grad b (data (h2 ! a) * grad (h2 ! out))
                   (add_grad a (data (h2 ! b) * grad (h2 ! out)) h2))"
  using assms by (simp add: Value_mul_Ref grad_add_grad_other)

lemma pow_rule:
  assumes "a < length h" "data (h ! a) \<noteq> 0 \<or> 0 \<le> k"
  shows "case Value_pow a (IntLit k) h of
           Inl e \<Rightarrow> False
         | Inr (out, h1) \<Rightarrow>
             data (h1 ! out) = data (h ! a) powi k \<and>
             (data (h2 ! a) \<noteq> 0 \<or> 1 \<le> k \<longrightarrow>
              call_backward (backward_fn (h1 ! out)) h2 =
                Inr (add_grad a (of_int k * data (h2 ! a) powi (k - 1) * grad (h2 ! out)) h2))"
  using assms by (auto simp add: Value_pow_IntLit py_pow_def)

lemma relu_rule:
  assumes "a < length h"
  shows "case Value_relu a h of (out, h1) \<Rightarrow>
           data (h1 ! out) = max 0 (data (h ! a)) \<and>
           call_backward (backward_fn (h1 ! out)) h2 =
             Inr (add_grad a ((if data (h2 ! out) > 0 then 1 else 0) * grad (h2 ! out)) h2)"
  using assms by (simp add: Value_relu_eq max_def)

lemma product_backward:
  assumes "iter_ok iter"
  shows "case product_graph x y h0 of (a, b, out, h) \<Rightarrow>
           \<exists>h'. Value_backward iter out h = Some (Inr h') \<and>
                grad (h' ! a) = y \<and> grad (h' ! b) = x \<and> grad (h' ! out) = 1"
  using iter_pair[OF assms, of "length h0" "Suc (length h0)"] iter_empty[OF assms]
  apply (simp add: product_graph_def Value_init_def Value_mul_Ref Value_backward_def nth_append)
  apply (auto simp: add_grad_def nth_append)
  done

lemma power_backward:
  assumes "iter_ok iter" "x \<noteq> 0 \<or> 1 \<le> k"
  shows "case power_graph x k h0 of
           Inl e \<Rightarrow> False
         | Inr (a, out, h) \<Rightarrow>
             \<exists>h'. Value_backward iter out h = Some (Inr h') \<and>
                  grad (h' ! a) = of_int k * x powi (k - 1)"
proof -
  let ?h1 = "h0 @ [\<lparr>data = x, grad = 0, backward_fn = NoOp, prev = {}, op_tag = []\<rparr>]"
  from assms(2) have "data (?h1 ! length h0) \<noteq> 0 \<or> 0 \<le> k" by auto
  from Value_pow_IntLit[OF _ this]
  have pw: "Value_pow (length h0) (IntLit k) ?h1 =
     Inr (Suc (length h0), ?h1 @ [\<lparr>data = x powi k, grad = 0,
        backward_fn = PowBackward (length h0) k (Suc (length h0)), prev = {length h0},
        op_tag = ''**'' @ str_int k\<rparr>])" by simp
  from assms(2) have py: "py_pow x (k - 1) = Inr (x powi (k - 1))"
    by (auto simp: py_pow_def)
  show ?thesis
    using iter_single[OF assms(1), of "length h0"] iter_empty[OF assms(1)]
    by (simp add: power_graph_def Value_init_def pw Value_backward_def nth_append py
        add_grad_def)
qed

lemma relu_backward:
  assumes "iter_ok iter"
  shows "case relu_graph x h0 of (a, out, h) \<Rightarrow>
           data (h ! out) = (if x < 0 then 0 else x) \<and>
           (\<exists>h'. Value_backward iter out h = Some (Inr h') \<and>
                 grad (h' ! a) = (if 0 < x then 1 else 0))"
  using iter_single[OF assms, of "length h0"] iter_empty[OF assms]
  apply (simp add: relu_graph_def Value_init_def Value_relu_eq Value_backward_def nth_append)
  apply (auto simp: add_grad_def nth_append)
  done


lemma two_leaves_eq:
  "two_leaves =
     [\<lparr>data = 2, grad = 0, backward_fn = NoOp, prev = {}, op_tag = []\<rparr>,
      \<lparr>data = - 3, grad = 0, backward_fn = NoOp, prev = {}, op_tag = []\<rparr>]"
  by (simp add: two_leaves_def Value_init_def)

subsection \<open>Construction only appends\<close>

lemma extends_heap_trans:
  assumes "extends_heap h (a, h1)" "extends_heap h1 res"
  shows "extends_heap h res"
proof -
  from assms(1) obtain n1 where 1: "h1 = h @ n1" "n1 \<noteq> []" "\<forall>n\<in>set n1. grad n = 0"
    by (auto simp: extends_heap_def)
  from assms(2) obtain n2 where 2: "snd res = h1 @ n2" "n2 \<noteq> []"
    "fst res = length h1 + length n2 - 1" "\<forall>n\<in>set n2. grad n = 0"
    by (auto simp: extends_heap_def)
  show ?thesis
    unfolding extends_heap_def
    by (rule exI[where x = "n1 @ n2"]) (use 1 2 in auto)
qed

lemma extends_heap_init: "extends_heap h (Value_init d cs t h)"
  by (simp add: extends_heap_def Value_init_def)

lemma extends_heap_add: "extends_heap h (Value_add a other h)"
  by (cases other) (auto simp: extends_heap_def Value_add_def Value_init_def set_backward_def)

lemma extends_heap_mul: "extends_heap h (Value_mul a other h)"
  by (cases other) (auto simp: extends_heap_def Value_mul_def Value_init_def set_backward_def)

lemma extends_heap_relu: "extends_heap h (Value_relu a h)"
  by (auto simp: extends_heap_def Value_relu_def Value_init_def set_backward_def)

lemma extends_heap_pow: "Value_pow a e h = Inr res \<Longrightarrow> extends_heap h res"
  by (cases e)
    (auto simp: extends_heap_def Value_pow_def Value_init_def set_backward_def
      split: sum.splits)

lemma extends_heap_neg: "extends_heap h (Value_neg a h)"
  by (simp add: Value_neg_def extends_heap_mul)

lemma extends_heap_radd: "extends_heap h (Value_radd a other h)"
  by (simp add: Value_radd_def extends_heap_add)

lemma extends_heap_rmul: "extends_heap h (Value_rmul a other h)"
  by (simp add: Value_rmul_def extends_heap_mul)

lemma extends_heap_sub: "extends_heap h (Value_sub a other h)"
proof (cases other)
  case (Ref b)
  obtain n h1 where n: "Value_neg b h = (n, h1)" by (cases "Value_neg b h")
  then have "extends_heap h (n, h1)" using extends_heap_neg[of h b] by simp
  from extends_heap_trans[OF this extends_heap_add] show ?thesis
    using Ref n by (simp add: Value_sub_def)
next
  case (Num x)
  then show ?thesis by (simp add: Value_sub_def extends_heap_add)
qed

lemma extends_heap_rsub: "extends_heap h (Value_rsub a other h)"
proof -
  obtain n h1 where n: "Value_neg a h = (n, h1)" by (cases "Value_neg a h")
  then have 1: "extends_heap h (n, h1)" using extends_heap_neg[of h a] by simp
  show ?thesis
    using n extends_heap_trans[OF 1 extends_heap_add] extends_heap_trans[OF 1 extends_heap_radd]
    by (cases other) (simp_all add: Value_rsub_def)
qed

lemma extends_heap_truediv: "Value_truediv a other h = Inr res \<Longrightarrow> extends_heap h res"
proof (cases other)
  case (Ref b)
  assume r: "Value_truediv a other h = Inr res"
  with Ref obtain p h1 where p: "Value_pow b (IntLit (- 1)) h = Inr (p, h1)"
    and res: "res = Value_mul a (Ref p) h1"
    by (auto simp: Value_truediv_def split: sum.splits)
  from extends_heap_trans[OF extends_heap_pow[OF p] extends_heap_mul] res
  show ?thesis by simp
next
  case (Num x)
  assume "Value_truediv a other h = Inr res"
  with Num show ?thesis
    by (auto simp: Value_truediv_def extends_heap_mul split: sum.splits)
qed

lemma extends_heap_rtruediv: "Value_rtruediv a other h = Inr res \<Longrightarrow> extends_heap h res"
proof -
  assume r: "Value_rtruediv a other h = Inr res"
  then obtain p h1 where p: "Value_pow a (IntLit (- 1)) h = Inr (p, h1)"
    and res: "res = (case other of Ref b \<Rightarrow> Value_mul b (Ref p) h1
                     | Num x \<Rightarrow> Value_rmul p (Num x) h1)"
    by (auto simp: Value_rtruediv_def split: sum.splits arg.splits)
  note 1 = extends_heap_pow[OF p]
  show ?thesis
    using res extends_heap_trans[OF 1 extends_heap_mul] extends_heap_trans[OF 1 extends_heap_rmul]
    by (cases other) simp_all
qed

lemma wrap_add: "snd (Value_add a (Num x) h) ! length h = leaf x"
  by (simp add: Value_add_def Value_init_def set_backward_def leaf_def nth_append)

lemma wrap_mul: "snd (Value_mul a (Num x) h) ! length h = leaf x"
  by (simp add: Value_mul_def Value_init_def set_backward_def leaf_def nth_append)

subsection \<open>What depends on the gradients and what does not\<close>

lemma edges_erase:
  assumes "erase_grad h1 = erase_grad h"
  shows "edges h1 = edges h"
proof -
  have len: "length h1 = length h" using assms by (rule erase_grad_length)
  have "prev (h1 ! v) = prev (h ! v)" if "v < length h" for v
    using erase_grad_nth(3)[OF assms that] .
  then show ?thesis unfolding edges_def len by auto
qed

lemma graph_ok_erase:
  assumes e: "erase_grad h1 = erase_grad h" and g: "graph_ok h"
  shows "graph_ok h1"
proof -
  have len: "length h1 = length h" using e by (rule erase_grad_length)
  have p: "prev (h1 ! v) = prev (h ! v)" if "v < length h" for v
    using erase_grad_nth(3)[OF e that] .
  have b: "backward_fn (h1 ! v) = backward_fn (h ! v)" if "v < length h" for v
    using erase_grad_nth(2)[OF e that] .
  from g have "refs_ok h1" unfolding graph_ok_def refs_ok_def len by (simp add: p)
  moreover from g have "closures_ok h1"
    unfolding graph_ok_def closures_ok_def len by (simp add: p b)
  moreover from g have "acyclic (edges h1)"
    unfolding edges_erase[OF e] by (simp add: graph_ok_def)
  ultimately show ?thesis by (simp add: graph_ok_def)
qed

lemma reachable_erase: "erase_grad h1 = erase_grad h \<Longrightarrow> reachable h1 r = reachable h r"
  using edges_erase[of h1 h] by (simp add: reachable_def)

lemma reachable_in_heap:
  assumes "refs_ok h" "r < length h" "v \<in> reachable h r"
  shows "v < length h"
proof -
  from assms(3) have "(r, v) \<in> (edges h)\<^sup>*" by (simp add: reachable_def)
  then show ?thesis
    using assms(1,2) by (induction rule: rtrancl_induct) (auto simp: edges_def refs_ok_def)
qed

lemma contributions_erase:
  assumes e: "erase_grad h1 = erase_grad h" and g: "graph_ok h" and v: "v < length h"
  shows "contributions h1 (backward_fn (h ! v)) = contributions h (backward_fn (h ! v))"
proof -
  from g v have ok: "closure_ok v (prev (h ! v)) (backward_fn (h ! v))"
    and refs: "\<forall>c\<in>prev (h ! v). c < length h"
    by (auto simp: graph_ok_def closures_ok_def refs_ok_def)
  have d: "data (h1 ! c) = data (h ! c)" if "c < length h" for c
    using erase_grad_nth(1)[OF e that] .
  show ?thesis
    using ok refs v by (cases "backward_fn (h ! v)") (auto simp: d)
qed

lemma local_derivative_erase:
  assumes e: "erase_grad h1 = erase_grad h" and g: "graph_ok h" and v: "v < length h"
  shows "local_derivative h1 v u = local_derivative h v u"
  using contributions_erase[OF assms] erase_grad_nth(2)[OF e v]
  by (simp add: local_derivative_def)

lemma raises_erase:
  assumes e: "erase_grad h1 = erase_grad h" and g: "graph_ok h" and v: "v < length h"
  shows "raises h1 (backward_fn (h1 ! v)) = raises h (backward_fn (h ! v))"
proof -
  from g v have ok: "closure_ok v (prev (h ! v)) (backward_fn (h ! v))"
    and refs: "\<forall>c\<in>prev (h ! v). c < length h"
    by (auto simp: graph_ok_def closures_ok_def refs_ok_def)
  have d: "data (h1 ! c) = data (h ! c)" if "c < length h" for c
    using erase_grad_nth(1)[OF e that] .
  have "backward_fn (h1 ! v) = backward_fn (h ! v)" using erase_grad_nth(2)[OF e v] .
  then show ?thesis
    using ok refs v by (cases "backward_fn (h ! v)") (auto simp: d)
qed

lemma local_derivative_unreachable:
  assumes g: "graph_ok h" and r: "r < length h" and v: "v \<in> reachable h r"
    and u: "u \<notin> reachable h r"
  shows "local_derivative h v u = 0"
proof -
  from g have refs: "refs_ok h" by (simp add: graph_ok_def)
  have vl: "v < length h" using reachable_in_heap[OF refs r v] .
  then have "closure_ok v (prev (h ! v)) (backward_fn (h ! v))"
    using g by (simp add: graph_ok_def closures_ok_def)
  moreover have "u \<notin> prev (h ! v)"
  proof
    assume "u \<in> prev (h ! v)"
    with vl have "(v, u) \<in> edges h" by (simp add: edges_def)
    with v have "u \<in> reachable h r" by (auto simp: reachable_def)
    with u show False by contradiction
  qed
  ultimately show ?thesis by (rule local_derivative_zero)
qed

subsection \<open>Layers\<close>

lemma call_neurons_length: "length (fst (call_neurons ns x h)) = length ns"
  by (induction ns arbitrary: h) (auto simp: split_beta)

lemma call_neurons_single:
  "call_neurons [n] x h = ([fst (Neuron_call n x h)], snd (Neuron_call n x h))"
  by (simp add: split_beta)

lemma product_heap_eq:
  "product_heap =
     [\<lparr>data = 2, grad = 0, backward_fn = NoOp, prev = {}, op_tag = []\<rparr>,
      \<lparr>data = - 3, grad = 0, backward_fn = NoOp, prev = {}, op_tag = []\<rparr>,
      \<lparr>data = - 6, grad = 0, backward_fn = MulBackward 0 1 2, prev = {0, 1}, op_tag = ''*''\<rparr>]"
  by (simp add: product_heap_def product_graph_def Value_init_def Value_mul_Ref eval_nat_numeral)

lemma relu_chain_heap_eq:
  "relu_chain_heap =
     [\<lparr>data = 5, grad = 0, backward_fn = NoOp, prev = {}, op_tag = []\<rparr>,
      \<lparr>data = 5, grad = 0, backward_fn = ReluBackward 0 1, prev = {0}, op_tag = ''ReLU''\<rparr>,
      \<lparr>data = 5, grad = 0, backward_fn = ReluBackward 1 2, prev = {1}, op_tag = ''ReLU''\<rparr>]"
  by (simp add: relu_chain_heap_def relu_chain_def Value_init_def Value_relu_eq eval_nat_numeral)

lemma graph_ok_product: "graph_ok h0 \<Longrightarrow> graph_ok (snd (snd (snd (product_graph x y h0))))"
  apply (simp add: product_graph_def Value_init_def Value_mul_Ref nth_append)
  apply (simp only: append_step)
  apply (intro graph_ok_append)
  apply simp_all
  done

lemma graph_ok_relu_chain: "graph_ok h0 \<Longrightarrow> graph_ok (snd (snd (relu_chain x h0)))"
  apply (simp add: relu_chain_def Value_init_def Value_relu_eq nth_append)
  apply (simp only: append_step)
  apply (intro conjI impI graph_ok_append)
  apply simp_all
  done

lemma graph_ok_product_heap: "graph_ok product_heap"
  unfolding product_heap_def using graph_ok_Nil by (rule graph_ok_product)

lemma sorted_list_of_set_single: "sorted_list_of_set {a::nat} = [a]"
  by simp

lemma sorted_list_of_set_pair: "a < b \<Longrightarrow> sorted_list_of_set {a::nat, b} = [a, b]"
proof -
  assume "a < b"
  then have "sorted_list_of_set (set [a, b]) = [a, b]"
    by (simp add: sorted_list_of_set_sort_remdups)
  then show ?thesis by simp
qed

lemma no_raise_reachable:
  assumes "refs_ok h" "r < length h" "\<forall>v<length h. \<not> raises h (backward_fn (h ! v))"
  shows "\<forall>v\<in>reachable h r. \<not> raises h (backward_fn (h ! v))"
proof
  fix v assume "v \<in> reachable h r"
  with assms(1,2) have "v < length h" by (rule reachable_in_heap)
  with assms(3) show "\<not> raises h (backward_fn (h ! v))" by blast
qed

lemma no_raise_product_heap: "never_raises product_heap 2"
  unfolding never_raises_def
proof (rule no_raise_reachable)
  show "refs_ok product_heap" using graph_ok_product_heap by (simp add: graph_ok_def)
  show "2 < length product_heap" by (simp add: product_heap_eq)
  show "\<forall>v<length product_heap. \<not> raises product_heap (backward_fn (product_heap ! v))"
    by (simp add: product_heap_eq All_less_Suc)
qed


lemma product_heap_length: "2 < length product_heap"
  by (simp add: product_heap_eq)

subsection \<open>Errors\<close>

lemma pow_assertion: "(Value_pow a e h = Inl AssertionError) = (\<forall>k. e \<noteq> IntLit k)"
  by (cases e) (auto simp: Value_pow_def py_pow_def split_beta)

lemma pow_zero_division:
  "data (h ! a) = 0 \<Longrightarrow> k < 0 \<Longrightarrow> Value_pow a (IntLit k) h = Inl ZeroDivisionError"
  by (simp add: Value_pow_def py_pow_def)

lemma truediv_zero:
  "(case other of Ref b \<Rightarrow> data (h ! b) = 0 | Num x \<Rightarrow> x = 0) \<Longrightarrow>
     Value_truediv a other h = Inl ZeroDivisionError"
  by (cases other) (simp_all add: Value_truediv_def Value_pow_def py_pow_def)

lemma rtruediv_zero:
  "data (h ! a) = 0 \<Longrightarrow> Value_rtruediv a other h = Inl ZeroDivisionError"
  by (simp add: Value_rtruediv_def Value_pow_def py_pow_def)

text \<open>
  The closures of the model raise nothing but \<^verbatim>\<open>ZeroDivisionError\<close>, so the first power
  node with base value 0 and an exponent below 1 that the pass reaches decides its result.
\<close>

lemma call_backward_error: "call_backward c h = Inl e \<Longrightarrow> e = ZeroDivisionError"
  by (cases c) (auto simp: py_pow_def Let_def split: if_splits)

lemma call_backward_erase: "call_backward c h = Inr h1 \<Longrightarrow> erase_grad h1 = erase_grad h"
  by (cases c) (auto simp: py_pow_def Let_def split: if_splits)

lemma call_backward_raises:
  assumes g: "graph_ok h0" and e: "erase_grad h = erase_grad h0" and v: "v < length h0"
    and rs: "raises h0 (backward_fn (h0 ! v))"
  shows "call_backward (backward_fn (h ! v)) h = Inl ZeroDivisionError"
proof -
  from rs obtain a k out where c: "backward_fn (h0 ! v) = PowBackward a k out"
    and z: "data (h0 ! a) = 0" "k < 1"
    by (cases "backward_fn (h0 ! v)") auto
  from g v c have "a \<in> prev (h0 ! v)" by (auto simp: graph_ok_def closures_ok_def)
  with g v have "a < length h0" by (auto simp: graph_ok_def refs_ok_def)
  then have "data (h ! a) = 0" using erase_grad_nth(1)[OF e] z by simp
  moreover have "backward_fn (h ! v) = PowBackward a k out"
    using erase_grad_nth(2)[OF e v] c by simp
  ultimately show ?thesis using z by (simp add: py_pow_def)
qed

lemma run_backward_raises:
  assumes g: "graph_ok h0"
  shows "erase_grad h = erase_grad h0 \<Longrightarrow> set Q \<subseteq> {..<length h0} \<Longrightarrow> v \<in> set Q \<Longrightarrow>
     raises h0 (backward_fn (h0 ! v)) \<Longrightarrow> run_backward Q h = Inl ZeroDivisionError"
proof (induction Q arbitrary: h)
  case Nil
  then show ?case by simp
next
  case (Cons x Q)
  show ?case
  proof (cases "call_backward (backward_fn (h ! x)) h")
    case (Inl err)
    then show ?thesis using call_backward_error[OF Inl] by simp
  next
    case (Inr h1)
    have "x \<noteq> v"
    proof
      assume "x = v"
      with Cons.prems have "v < length h0" by simp
      from call_backward_raises[OF g Cons.prems(1) this Cons.prems(4)] Inr \<open>x = v\<close>
      show False by simp
    qed
    with Cons.prems have vQ: "v \<in> set Q" and sub: "set Q \<subseteq> {..<length h0}" by auto
    have "erase_grad h1 = erase_grad h0"
      using call_backward_erase[OF Inr] Cons.prems(1) by simp
    from Cons.IH[OF this sub vQ Cons.prems(4)] Inr show ?thesis by simp
  qed
qed

lemma backward_unfold:
  assumes it: "iter_ok iter" and g: "graph_ok h" and r: "r < length h"
  shows "\<exists>topo. distinct topo \<and> set topo = reachable h r \<and> operands_first h topo \<and>
     Value_backward iter r h = Some (run_backward (rev topo) (h[r := (h ! r)\<lparr>grad := 1\<rparr>]))"
proof -
  from g have refs: "refs_ok h" and ac: "acyclic (edges h)" by (simp_all add: graph_ok_def)
  from build_topo_returns[OF it refs r] obtain visited topo where
    bt: "build_topo iter (Suc (length h)) h r ({}, []) = Some (visited, topo)" by auto
  have "dfs_pre h {} [] {r}" by (simp add: dfs_pre_def)
  from build_topo_post_aux[OF it refs ac bt r this]
  have "dfs_post h {} [] {r} visited topo" .
  then have "distinct topo" "set topo = reachable h r" "operands_first h topo"
    by (auto simp: dfs_post_def reachable_def)
  moreover have "Value_backward iter r h =
      Some (run_backward (rev topo) (h[r := (h ! r)\<lparr>grad := 1\<rparr>]))"
    using bt by (simp add: Value_backward_def)
  ultimately show ?thesis by blast
qed

lemma backward_raises:
  assumes it: "iter_ok iter" and g: "graph_ok h" and r: "r < length h"
    and v: "v \<in> reachable h r" and rs: "raises h (backward_fn (h ! v))"
  shows "Value_backward iter r h = Some (Inl ZeroDivisionError)"
proof -
  from backward_unfold[OF it g r] obtain topo where
    s: "set topo = reachable h r"
    and b: "Value_backward iter r h =
      Some (run_backward (rev topo) (h[r := (h ! r)\<lparr>grad := 1\<rparr>]))" by blast
  from g have refs: "refs_ok h" by (simp add: graph_ok_def)
  have inh: "set (rev topo) \<subseteq> {..<length h}"
    using s reachable_in_heap[OF refs r] by auto
  from v s have v': "v \<in> set (rev topo)" by simp
  have "run_backward (rev topo) (h[r := (h ! r)\<lparr>grad := 1\<rparr>]) = Inl ZeroDivisionError"
    by (rule run_backward_raises[OF g _ inh v' rs]) simp
  with b show ?thesis by simp
qed

lemma pow_zero_backward:
  assumes it: "iter_ok iter" and g: "graph_ok h" and a: "a < length h" and z: "data (h ! a) = 0"
  shows "\<exists>out h1. Value_pow a (IntLit 0) h = Inr (out, h1) \<and>
     Value_backward iter out h1 = Some (Inl ZeroDivisionError)"
proof -
  define h1 where "h1 = h @ [\<lparr>data = data (h ! a) powi 0, grad = 0,
        backward_fn = PowBackward a 0 (length h), prev = {a}, op_tag = ''**'' @ str_int 0\<rparr>]"
  have p: "Value_pow a (IntLit 0) h = Inr (length h, h1)"
    unfolding h1_def by (rule Value_pow_IntLit[OF a]) simp
  from graph_ok_pow[OF g a p] have g1: "graph_ok h1" .
  have r: "length h < length h1" by (simp add: h1_def)
  have v: "length h \<in> reachable h1 (length h)" by (simp add: reachable_def)
  have "raises h1 (backward_fn (h1 ! length h))"
    using a z by (simp add: h1_def nth_append)
  from backward_raises[OF it g1 r v this] p show ?thesis by blast
qed

lemma graph_ok_zero_leaf: "graph_ok zero_leaf"
  unfolding zero_leaf_def using graph_ok_Nil by (rule graph_ok_leaf)

lemma zero_leaf_eq: "zero_leaf = [leaf 0]"
  by (simp add: zero_leaf_def Value_init_def leaf_def)

subsection \<open>The gradient equations have one solution\<close>




lemma contributions_append:
  assumes "graph_ok h" "v < length h"
  shows "contributions (h @ new) (backward_fn (h ! v)) = contributions h (backward_fn (h ! v))"
proof -
  from assms have ok: "closure_ok v (prev (h ! v)) (backward_fn (h ! v))"
    and refs: "\<forall>c\<in>prev (h ! v). c < length h"
    by (auto simp: graph_ok_def closures_ok_def refs_ok_def)
  show ?thesis
    using ok refs assms(2) by (cases "backward_fn (h ! v)") (auto simp: nth_append)
qed

lemma local_derivative_append:
  assumes "graph_ok h" "v < length h"
  shows "local_derivative (h @ new) v u = local_derivative h v u"
  using contributions_append[OF assms, of new] assms(2)
  by (simp add: local_derivative_def nth_append)

lemma local_derivative_last_zero:
  assumes refs: "refs_ok h" and n: "\<forall>c\<in>prev n. c < length h"
    and cl: "closures_ok (h @ [n])" and v: "v \<le> length h"
  shows "local_derivative (h @ [n]) v (length h) = 0"
proof -
  have vl: "v < length (h @ [n])" using v by simp
  have "length h \<notin> prev ((h @ [n]) ! v)"
  proof (cases "v = length h")
    case True
    with n show ?thesis by auto
  next
    case False
    with v have "v < length h" by simp
    with refs show ?thesis by (auto simp: refs_ok_def nth_append)
  qed
  moreover from cl vl have "closure_ok v (prev ((h @ [n]) ! v)) (backward_fn ((h @ [n]) ! v))"
    unfolding closures_ok_def by blast
  ultimately show ?thesis by (intro local_derivative_zero)
qed

lemma adjoint_peel:
  assumes g: "graph_ok h" and n: "\<forall>c\<in>prev n. c < length h"
    and cl: "closure_ok (length h) (prev n) (backward_fn n)"
    and S: "S \<subseteq> {..<length h}"
    and sol: "adjoint_sol (h @ [n]) (insert (length h) S) g0 g"
  shows "g (length h) = g0 (length h)"
    and "adjoint_sol h S (\<lambda>u. g0 u + local_derivative (h @ [n]) (length h) u * g0 (length h)) g"
proof -
  let ?H = "h @ [n]" and ?k = "length h"
  from g have refs: "refs_ok h" by (simp add: graph_ok_def)
  have gH: "graph_ok ?H" using g n cl by (rule graph_ok_append)
  then have clH: "closures_ok ?H" by (simp add: graph_ok_def)
  have fin: "finite S" using S by (rule finite_subset) simp
  have kS: "?k \<notin> S" using S by auto
  have zero: "local_derivative ?H v ?k = 0" if "v \<in> insert ?k S" for v
    using that S by (intro local_derivative_last_zero[OF refs n clH]) auto
  from sol have "g ?k = g0 ?k + (\<Sum>v\<in>insert ?k S. local_derivative ?H v ?k * g v)"
    by (simp add: adjoint_sol_def)
  also have "(\<Sum>v\<in>insert ?k S. local_derivative ?H v ?k * g v) = 0"
    by (rule sum.neutral) (simp add: zero)
  finally show gk: "g ?k = g0 ?k" by simp
  show "adjoint_sol h S (\<lambda>u. g0 u + local_derivative ?H ?k u * g0 ?k) g"
    unfolding adjoint_sol_def
  proof (intro allI impI)
    fix u assume u: "u < length h"
    with sol have "g u = g0 u + (\<Sum>v\<in>insert ?k S. local_derivative ?H v u * g v)"
      by (simp add: adjoint_sol_def)
    also have "(\<Sum>v\<in>insert ?k S. local_derivative ?H v u * g v) =
        local_derivative ?H ?k u * g ?k + (\<Sum>v\<in>S. local_derivative ?H v u * g v)"
      using fin kS by simp
    also have "(\<Sum>v\<in>S. local_derivative ?H v u * g v) = (\<Sum>v\<in>S. local_derivative h v u * g v)"
    proof (rule sum.cong)
      fix v assume "v \<in> S"
      then have "v < length h" using S by auto
      from local_derivative_append[OF g this, of "[n]" u]
      show "local_derivative ?H v u * g v = local_derivative h v u * g v" by simp
    qed simp
    finally show "g u = g0 u + local_derivative ?H ?k u * g0 ?k +
        (\<Sum>v\<in>S. local_derivative h v u * g v)"
      using gk by simp
  qed
qed

lemma local_derivative_root_zero:
  assumes g: "graph_ok h" and r: "r < length h" and v: "v \<in> reachable h r"
  shows "local_derivative h v r = 0"
proof -
  from g have refs: "refs_ok h" and cl: "closures_ok h" and acyc: "acyclic (edges h)"
    by (simp_all add: graph_ok_def)
  have vl: "v < length h" using reachable_in_heap[OF refs r v] .
  then have "closure_ok v (prev (h ! v)) (backward_fn (h ! v))"
    using cl by (simp add: closures_ok_def)
  moreover have "r \<notin> prev (h ! v)"
  proof
    assume "r \<in> prev (h ! v)"
    with vl have "(v, r) \<in> edges h" by (simp add: edges_def)
    moreover from v have "(r, v) \<in> (edges h)\<^sup>*" by (simp add: reachable_def)
    ultimately have "(r, r) \<in> (edges h)\<^sup>+" by (rule rtrancl_into_trancl1[rotated])
    with acyc show False by (simp add: acyclic_def)
  qed
  ultimately show ?thesis by (rule local_derivative_zero)
qed

lemma backward_solves:
  assumes it: "iter_ok iter" and g: "graph_ok h" and r: "r < length h"
    and nr: "never_raises h r"
  shows "\<exists>h'. Value_backward iter r h = Some (Inr h') \<and> erase_grad h' = erase_grad h \<and>
     adjoint_sol h (reachable h r) (\<lambda>u. if u = r then 1 else grad (h ! u)) (\<lambda>u. grad (h' ! u))"
proof -
  from g have refs: "refs_ok h" and cl: "closures_ok h" and acyc: "acyclic (edges h)"
    by (simp_all add: graph_ok_def)
  from backward_adjoint[OF it refs cl acyc r nr[unfolded never_raises_def]] obtain h' where
    b: "Value_backward iter r h = Some (Inr h')" and e: "erase_grad h' = erase_grad h"
    and gr: "grad (h' ! r) = 1"
    and eq: "\<forall>u<length h. u \<noteq> r \<longrightarrow> grad (h' ! u) =
         grad (h ! u) + (\<Sum>v\<in>reachable h r. local_derivative h v u * grad (h' ! v))"
    by blast
  have "(\<Sum>v\<in>reachable h r. local_derivative h v r * grad (h' ! v)) = 0"
    by (rule sum.neutral) (simp add: local_derivative_root_zero[OF g r])
  with gr eq have "adjoint_sol h (reachable h r) (\<lambda>u. if u = r then 1 else grad (h ! u))
      (\<lambda>u. grad (h' ! u))"
    unfolding adjoint_sol_def by auto
  with b e show ?thesis by blast
qed

subsection \<open>Appended nodes\<close>

lemma edges_old:
  assumes "refs_ok h" "v < length h"
  shows "((v, u) \<in> edges (h @ new)) = ((v, u) \<in> edges h)"
  using assms by (auto simp: edges_def nth_append)

lemma reachable_append_old:
  assumes refs: "refs_ok h" and c: "c < length h"
  shows "reachable (h @ new) c = reachable h c"
proof (intro set_eqI iffI)
  fix u assume "u \<in> reachable (h @ new) c"
  then have "(c, u) \<in> (edges (h @ new))\<^sup>*" by (simp add: reachable_def)
  then have "(c, u) \<in> (edges h)\<^sup>* \<and> u < length h"
  proof (induction rule: rtrancl_induct)
    case base
    then show ?case using c by simp
  next
    case (step y z)
    then have "(y, z) \<in> edges h" using edges_old[OF refs, of y z new] by simp
    moreover from this refs have "z < length h" by (auto simp: edges_def refs_ok_def)
    ultimately show ?case using step by auto
  qed
  then show "u \<in> reachable h c" by (simp add: reachable_def)
next
  fix u assume "u \<in> reachable h c"
  then have "(c, u) \<in> (edges h)\<^sup>*" by (simp add: reachable_def)
  then have "(c, u) \<in> (edges (h @ new))\<^sup>*"
  proof (induction rule: rtrancl_induct)
    case base
    then show ?case by simp
  next
    case (step y z)
    from step.hyps(2) have "y < length h" by (simp add: edges_def)
    with step.hyps(2) have "(y, z) \<in> edges (h @ new)" using edges_old[OF refs, of y z new] by simp
    with step.IH show ?case by auto
  qed
  then show "u \<in> reachable (h @ new) c" by (simp add: reachable_def)
qed

lemma reachable_snoc:
  assumes refs: "refs_ok h" and n: "\<forall>c\<in>prev n. c < length h"
  shows "reachable (h @ [n]) (length h) = insert (length h) (\<Union>c\<in>prev n. reachable h c)"
proof -
  have E: "edges (h @ [n]) `` {length h} = prev n"
    by (auto simp: edges_def)
  have "reachable (h @ [n]) (length h) = (edges (h @ [n]))\<^sup>* `` {length h}"
    by (auto simp: reachable_def)
  also have "\<dots> = insert (length h) ((edges (h @ [n]))\<^sup>* `` prev n)"
    using reach_step[of "h @ [n]" "length h"] E by simp
  also have "(edges (h @ [n]))\<^sup>* `` prev n = (\<Union>c\<in>prev n. reachable (h @ [n]) c)"
    by (auto simp: reachable_def)
  also have "\<dots> = (\<Union>c\<in>prev n. reachable h c)"
    using n by (simp add: reachable_append_old[OF refs])
  finally show ?thesis .
qed

lemma reachable_leaf: "refs_ok h \<Longrightarrow> a < length h \<Longrightarrow> prev (h ! a) = {} \<Longrightarrow> reachable h a = {a}"
proof -
  assume "refs_ok h" "a < length h" and p: "prev (h ! a) = {}"
  have "edges h `` {a} = {}" using p by (auto simp: edges_def)
  with reach_step[of h a] show ?thesis by (simp add: reachable_def Image_def)
qed

lemma raises_append:
  assumes "graph_ok h" "v < length h"
  shows "raises (h @ new) (backward_fn (h ! v)) = raises h (backward_fn (h ! v))"
proof -
  from assms have ok: "closure_ok v (prev (h ! v)) (backward_fn (h ! v))"
    and refs: "\<forall>c\<in>prev (h ! v). c < length h"
    by (auto simp: graph_ok_def closures_ok_def refs_ok_def)
  show ?thesis
    using ok refs assms(2) by (cases "backward_fn (h ! v)") (auto simp: nth_append)
qed

lemma never_raises_snoc:
  assumes g: "graph_ok h" and n: "\<forall>c\<in>prev n. c < length h"
    and ops: "\<forall>c\<in>prev n. never_raises h c"
    and nr: "\<not> raises (h @ [n]) (backward_fn n)"
  shows "never_raises (h @ [n]) (length h)"
  unfolding never_raises_def
proof
  from g have refs: "refs_ok h" by (simp add: graph_ok_def)
  fix v assume "v \<in> reachable (h @ [n]) (length h)"
  then consider "v = length h" | c where "c \<in> prev n" "v \<in> reachable h c"
    unfolding reachable_snoc[OF refs n] by auto
  then show "\<not> raises (h @ [n]) (backward_fn ((h @ [n]) ! v))"
  proof cases
    case 1
    with nr show ?thesis by simp
  next
    case 2
    with n have "c < length h" by auto
    from reachable_in_heap[OF refs this 2(2)] have vl: "v < length h" .
    from ops 2 have "\<not> raises h (backward_fn (h ! v))" by (auto simp: never_raises_def)
    with raises_append[OF g vl, of "[n]"] vl show ?thesis by (simp add: nth_append)
  qed
qed

lemma never_raises_old:
  assumes g: "graph_ok h" and c: "c < length h" and nr: "never_raises h c"
  shows "never_raises (h @ new) c"
  unfolding never_raises_def
proof
  from g have refs: "refs_ok h" by (simp add: graph_ok_def)
  fix v assume "v \<in> reachable (h @ new) c"
  then have v: "v \<in> reachable h c" unfolding reachable_append_old[OF refs c] .
  from reachable_in_heap[OF refs c v] have vl: "v < length h" .
  from nr v have "\<not> raises h (backward_fn (h ! v))" by (auto simp: never_raises_def)
  with raises_append[OF g vl, of new] vl
  show "\<not> raises (h @ new) (backward_fn ((h @ new) ! v))" by (simp add: nth_append)
qed

lemma reach_all_snoc:
  assumes refs: "refs_ok h" and n: "\<forall>c\<in>prev n. c < length h" and T: "T \<subseteq> {..<length h}"
  shows "reach_all (h @ [n]) (insert (length h) T) = insert (length h) (reach_all h (prev n \<union> T))"
proof -
  have "(\<Union>t\<in>T. reachable (h @ [n]) t) = (\<Union>t\<in>T. reachable h t)"
    using T by (intro SUP_cong) (auto simp: reachable_append_old[OF refs])
  then show ?thesis
    unfolding reach_all_def using reachable_snoc[OF refs n] by auto
qed

lemma reach_all_in_heap:
  assumes "refs_ok h" "T \<subseteq> {..<length h}"
  shows "reach_all h T \<subseteq> {..<length h}"
  using assms reachable_in_heap[OF assms(1)] unfolding reach_all_def by blast

lemma peel_target:
  assumes g: "graph_ok h" and n: "\<forall>c\<in>prev n. c < length h"
    and cl: "closure_ok (length h) (prev n) (backward_fn n)"
    and T: "T \<subseteq> {..<length h}"
    and sol: "adjoint_sol (h @ [n]) (reach_all (h @ [n]) (insert (length h) T)) g0 g"
  shows "adjoint_sol h (reach_all h (prev n \<union> T))
           (\<lambda>u. g0 u + local_derivative (h @ [n]) (length h) u * g0 (length h)) g"
proof -
  from g have refs: "refs_ok h" by (simp add: graph_ok_def)
  have sub: "reach_all h (prev n \<union> T) \<subseteq> {..<length h}"
    using n T by (intro reach_all_in_heap[OF refs]) auto
  show ?thesis
    using adjoint_peel(2)[OF g n cl sub] sol unfolding reach_all_snoc[OF refs n T] by blast
qed

lemma peel_skip:
  assumes g: "graph_ok h" and T: "T \<subseteq> {..<length h}"
    and sol: "adjoint_sol (h @ [n]) (reach_all (h @ [n]) T) g0 g"
  shows "adjoint_sol h (reach_all h T) g0 g"
proof -
  from g have refs: "refs_ok h" by (simp add: graph_ok_def)
  have eq: "reach_all (h @ [n]) T = reach_all h T"
    unfolding reach_all_def using T by (intro SUP_cong) (auto simp: reachable_append_old[OF refs])
  have sub: "reach_all h T \<subseteq> {..<length h}" using refs T by (rule reach_all_in_heap)
  show ?thesis
    unfolding adjoint_sol_def
  proof (intro allI impI)
    fix u assume u: "u < length h"
    with sol have "g u = g0 u + (\<Sum>v\<in>reach_all h T. local_derivative (h @ [n]) v u * g v)"
      unfolding eq by (simp add: adjoint_sol_def)
    also have "(\<Sum>v\<in>reach_all h T. local_derivative (h @ [n]) v u * g v) =
        (\<Sum>v\<in>reach_all h T. local_derivative h v u * g v)"
    proof (rule sum.cong)
      fix v assume "v \<in> reach_all h T"
      then have "v < length h" using sub by auto
      from local_derivative_append[OF g this, of "[n]" u]
      show "local_derivative (h @ [n]) v u * g v = local_derivative h v u * g v" by simp
    qed simp
    finally show "g u = g0 u + (\<Sum>v\<in>reach_all h T. local_derivative h v u * g v)" .
  qed
qed

lemma local_derivative_snoc:
  "local_derivative (h @ [n]) (length h) u =
     (\<Sum>(t, w) \<leftarrow> contributions (h @ [n]) (backward_fn n). if t = u then w else 0)"
  by (simp add: local_derivative_def)

lemma adjoint_sol_cong:
  "adjoint_sol h S g0 g \<Longrightarrow> \<forall>u<length h. g0 u = g0' u \<Longrightarrow> adjoint_sol h S g0' g"
  by (simp add: adjoint_sol_def)

lemma reach_all_single: "reach_all h {r} = reachable h r"
  by (simp add: reach_all_def)

lemma graph_ok_fresh: "graph_ok h \<Longrightarrow> fresh_ok h rf \<Longrightarrow> graph_ok (h @ rev rf)"
proof (induction rf)
  case Nil
  then show ?case by simp
next
  case (Cons n rest)
  then have "graph_ok (h @ rev rest)" by simp
  from graph_ok_append[OF this, of n] Cons.prems(2) show ?case by simp
qed

lemma peel_sound:
  assumes g: "graph_ok h"
  shows "fresh_ok h rf \<Longrightarrow> T \<subseteq> {..<length h + length rf} \<Longrightarrow>
     adjoint_sol (h @ rev rf) (reach_all (h @ rev rf) T) g0 g1 \<Longrightarrow>
     peel_targets h rf T \<subseteq> {..<length h} \<and>
     adjoint_sol h (reach_all h (peel_targets h rf T)) (peel_seed h rf T g0) g1"
proof (induction rf arbitrary: T g0)
  case Nil
  then show ?case by simp
next
  case (Cons n rest)
  let ?H = "h @ rev rest" and ?k = "length h + length rest"
  from Cons.prems(1) have ok: "fresh_ok h rest" and n: "\<forall>c\<in>prev n. c < length ?H"
    and cl: "closure_ok (length ?H) (prev n) (backward_fn n)" by simp_all
  have gH: "graph_ok ?H" using g ok by (rule graph_ok_fresh)
  from Cons.prems(3) have sol: "adjoint_sol (?H @ [n]) (reach_all (?H @ [n]) T) g0 g1" by simp
  show ?case
  proof (cases "?k \<in> T")
    case True
    let ?T' = "T - {?k}"
    have T': "?T' \<subseteq> {..<length ?H}" using Cons.prems(2) by auto
    have "insert (length ?H) ?T' = T" using True by auto
    with sol have "adjoint_sol (?H @ [n]) (reach_all (?H @ [n]) (insert (length ?H) ?T')) g0 g1"
      by simp
    from peel_target[OF gH n cl T' this]
    have s: "adjoint_sol ?H (reach_all ?H (prev n \<union> ?T'))
        (\<lambda>u. g0 u + local_derivative (?H @ [n]) (length ?H) u * g0 (length ?H)) g1" .
    have sub: "prev n \<union> ?T' \<subseteq> {..<length h + length rest}" using n T' by auto
    from Cons.IH[OF ok sub] s True show ?thesis by simp
  next
    case False
    then have T': "T \<subseteq> {..<length ?H}" using Cons.prems(2) by (auto simp: less_Suc_eq)
    from peel_skip[OF gH T' sol] have s: "adjoint_sol ?H (reach_all ?H T) g0 g1" .
    from T' have sub: "T \<subseteq> {..<length h + length rest}" by simp
    from Cons.IH[OF ok sub s] False show ?thesis by simp
  qed
qed

lemma peel_safe:
  assumes g: "graph_ok h"
  shows "fresh_ok h rf \<Longrightarrow> T \<subseteq> {..<length h + length rf} \<Longrightarrow>
     \<forall>t\<in>peel_targets h rf T. never_raises h t \<Longrightarrow>
     \<forall>t\<in>T. never_raises (h @ rev rf) t"
proof (induction rf arbitrary: T)
  case Nil
  then show ?case by simp
next
  case (Cons n rest)
  let ?H = "h @ rev rest" and ?k = "length h + length rest"
  from Cons.prems(1) have ok: "fresh_ok h rest" and n: "\<forall>c\<in>prev n. c < length ?H"
    and cl: "closure_ok (length ?H) (prev n) (backward_fn n)"
    and nr: "\<not> raises (?H @ [n]) (backward_fn n)" by simp_all
  have gH: "graph_ok ?H" using g ok by (rule graph_ok_fresh)
  show ?case
  proof (cases "?k \<in> T")
    case True
    let ?T1 = "prev n \<union> (T - {?k})"
    have sub: "?T1 \<subseteq> {..<length h + length rest}" using n Cons.prems(2) by auto
    from Cons.prems(3) True have "\<forall>t\<in>peel_targets h rest ?T1. never_raises h t" by simp
    from Cons.IH[OF ok sub this] have safe: "\<forall>t\<in>?T1. never_raises ?H t" .
    show ?thesis
    proof
      fix t assume t: "t \<in> T"
      show "never_raises (h @ rev (n # rest)) t"
      proof (cases "t = ?k")
        case True
        have "never_raises (?H @ [n]) (length ?H)"
          using safe by (intro never_raises_snoc[OF gH n _ nr]) simp
        with True show ?thesis by simp
      next
        case False
        with t Cons.prems(2) have tl: "t < length ?H" by auto
        from safe t False have "never_raises ?H t" by simp
        from never_raises_old[OF gH tl this, of "[n]"] show ?thesis by simp
      qed
    qed
  next
    case False
    then have T': "T \<subseteq> {..<length h + length rest}"
      using Cons.prems(2) by (auto simp: less_Suc_eq)
    from Cons.prems(3) False have "\<forall>t\<in>peel_targets h rest T. never_raises h t" by simp
    from Cons.IH[OF ok T' this] have safe: "\<forall>t\<in>T. never_raises ?H t" .
    show ?thesis
    proof
      fix t assume t: "t \<in> T"
      with T' have tl: "t < length ?H" by auto
      from never_raises_old[OF gH tl] safe t show "never_raises (h @ rev (n # rest)) t" by simp
    qed
  qed
qed

lemma backward_fresh:
  assumes it: "iter_ok iter" and g: "graph_ok h" and ok: "fresh_ok h rf"
    and r: "r < length h + length rf"
    and safe: "\<forall>t\<in>peel_targets h rf {r}. never_raises h t"
  shows "\<exists>h'. Value_backward iter r (h @ rev rf) = Some (Inr h') \<and>
     (length h \<le> r \<longrightarrow> grad (h' ! r) = 1) \<and>
     adjoint_sol h (reach_all h (peel_targets h rf {r}))
       (peel_seed h rf {r} (\<lambda>u. if u = r then 1 else grad ((h @ rev rf) ! u)))
       (\<lambda>u. grad (h' ! u))"
proof -
  let ?H = "h @ rev rf"
  have gH: "graph_ok ?H" using g ok by (rule graph_ok_fresh)
  have rT: "{r} \<subseteq> {..<length h + length rf}" using r by simp
  have nr: "never_raises ?H r" using peel_safe[OF g ok rT safe] by simp
  have rl: "r < length ?H" using r by simp
  from backward_solves[OF it gH rl nr] obtain h' where
    b: "Value_backward iter r ?H = Some (Inr h')"
    and sol: "adjoint_sol ?H (reachable ?H r)
        (\<lambda>u. if u = r then 1 else grad (?H ! u)) (\<lambda>u. grad (h' ! u))"
    by blast
  from sol have "adjoint_sol ?H (reach_all ?H {r})
        (\<lambda>u. if u = r then 1 else grad (?H ! u)) (\<lambda>u. grad (h' ! u))"
    by (simp add: reach_all_single)
  from peel_sound[OF g ok rT this]
  have s: "adjoint_sol h (reach_all h (peel_targets h rf {r}))
       (peel_seed h rf {r} (\<lambda>u. if u = r then 1 else grad (?H ! u)))
       (\<lambda>u. grad (h' ! u))" by simp
  from gH have refs: "refs_ok ?H" and cl: "closures_ok ?H" and ac: "acyclic (edges ?H)"
    by (simp_all add: graph_ok_def)
  from backward_adjoint[OF it refs cl ac rl nr[unfolded never_raises_def]] b
  have "grad (h' ! r) = 1" by auto
  with b s show ?thesis by blast
qed

lemma injectsI:
  assumes it: "iter_ok iter" and g: "graph_ok h" and res: "res = (r, h @ rev rf)"
    and ok: "fresh_ok h rf" and r: "r < length h + length rf" and fresh: "length h \<le> r"
    and T: "peel_targets h rf {r} = T" and safe: "\<forall>t\<in>T. never_raises h t"
    and seed: "\<forall>u<length h.
        peel_seed h rf {r} (\<lambda>u. if u = r then 1 else grad ((h @ rev rf) ! u)) u = grad (h ! u) + d u"
  shows "injects iter h T d res"
proof -
  from backward_fresh[OF it g ok r] safe T obtain h' where
    b: "Value_backward iter r (h @ rev rf) = Some (Inr h')" and gr: "grad (h' ! r) = 1"
    and sol: "adjoint_sol h (reach_all h T)
       (peel_seed h rf {r} (\<lambda>u. if u = r then 1 else grad ((h @ rev rf) ! u)))
       (\<lambda>u. grad (h' ! u))"
    using fresh by auto
  from adjoint_sol_cong[OF sol seed] b gr show ?thesis
    unfolding injects_def res by auto
qed

lemma Value_rsub_Num:
  "a < length h \<Longrightarrow> Value_rsub a (Num x) h =
     (length h + 3,
      h @ rev [\<lparr>data = data (h ! a) * (- 1) + x, grad = 0,
            backward_fn = AddBackward (length h + 1) (length h + 2) (length h + 3),
            prev = {length h + 1, length h + 2}, op_tag = ''+''\<rparr>,
           \<lparr>data = x, grad = 0, backward_fn = NoOp, prev = {}, op_tag = []\<rparr>,
           \<lparr>data = data (h ! a) * (- 1), grad = 0,
            backward_fn = MulBackward a (length h) (length h + 1),
            prev = {a, length h}, op_tag = ''*''\<rparr>,
           \<lparr>data = - 1, grad = 0, backward_fn = NoOp, prev = {}, op_tag = []\<rparr>])"
  by (simp add: Value_rsub_def Value_neg_def Value_radd_def Value_mul_Num Value_add_Num
      nth_append eval_nat_numeral)

lemma injects_rsub:
  assumes it: "iter_ok iter" and g: "graph_ok h" and a: "a < length h"
    and nr: "never_raises h a"
  shows "injects iter h {a} (\<lambda>u. if u = a then - 1 else 0) (Value_rsub a (Num x) h)"
  apply (rule injectsI[OF it g Value_rsub_Num[OF a]])
  using a nr
       apply (auto simp: local_derivative_def nth_append)
  done

subsection \<open>The graphs of the derived operators\<close>



























subsection \<open>Derived operators against their compositions\<close>















section \<open>Gradients of the test scenarios\<close>

text \<open>
  C1.  For a leaf \<open>a\<close> with \<open>b = a*a\<close>, \<open>c = a*a\<close> and \<open>out = b + c\<close>, the backward pass on
  \<open>out\<close> returns and leaves the gradient of \<open>a\<close> equal to four times its value: both paths
  through \<open>a\<close> contribute, and their contributions are summed.  This holds whichever
  order the sets of operands are iterated in, and whatever the heap held before.
\<close>

theorem diamond_gradient:
  assumes "iter_ok iter"
  shows "(case diamond x h0 of (a, out, h) \<Rightarrow>
           \<exists>h'. Value_backward iter out h = Some (Inr h') \<and>
                data (h' ! a) = x \<and> grad (h' ! a) = 4 * data (h' ! a))"
  using iter_pair[OF assms, of "Suc (length h0)" "Suc (Suc (length h0))"]
    iter_single[OF assms, of "length h0"] iter_empty[OF assms]
  apply (simp add: diamond_def Value_init_def Value_mul_Ref Value_add_Ref Value_backward_def nth_append)
  apply (auto simp: add_grad_def nth_append)
  done

theorem diamond_gradient_witness:
  "iter_ok sorted_list_of_set \<and>
   (case diamond 3 [] of (a, out, h) \<Rightarrow>
      \<exists>h'. Value_backward sorted_list_of_set out h = Some (Inr h') \<and>
           data (h' ! a) = 3 \<and> grad (h' ! a) = 4 * data (h' ! a))"
  using diamond_gradient[OF iter_ok_sorted_list_of_set, of 3 "[]"]
  by (simp add: iter_ok_sorted_list_of_set)


text \<open>
  C3.  The product and the power rule.  For \<open>out = a*b\<close> the value of \<open>out\<close> is the
  product of the values, and the installed closure, called in any heap \<open>h2\<close>, adds
  \<open>b.data * out.grad\<close> to \<open>a\<close> and \<open>a.data * out.grad\<close> to \<open>b\<close>; for the leaves 2 and -3
  the backward pass gives the gradients -3, 2 and 1.  For \<open>out = a**k\<close> with an integer
  literal \<open>k\<close> (where Python can evaluate the powers) the value is \<open>a.data**k\<close> and the
  closure adds \<open>k * a.data**(k-1) * out.grad\<close> to \<open>a\<close>; for the leaf 2 and \<open>k = 3\<close> the
  backward pass gives the gradient 12.  The rules of addition and of relu match the
  table likewise.
\<close>

theorem local_derivative_table:
  assumes "iter_ok iter" "a < length h" "b < length h"
  shows "(case Value_mul a (Ref b) h of (out, h1) \<Rightarrow>
            data (h1 ! out) = data (h ! a) * data (h ! b) \<and>
            call_backward (backward_fn (h1 ! out)) h2 =
              Inr (add_grad b (data (h2 ! a) * grad (h2 ! out))
                    (add_grad a (data (h2 ! b) * grad (h2 ! out)) h2))) \<and>
         (case product_graph 2 (- 3) h0 of (a, b, out, h) \<Rightarrow>
            \<exists>h'. Value_backward iter out h = Some (Inr h') \<and>
                 grad (h' ! a) = - 3 \<and> grad (h' ! b) = 2 \<and> grad (h' ! out) = 1) \<and>
         (data (h ! a) \<noteq> 0 \<or> 0 \<le> k \<longrightarrow>
            (case Value_pow a (IntLit k) h of
               Inl e \<Rightarrow> False
             | Inr (out, h1) \<Rightarrow>
                 data (h1 ! out) = data (h ! a) powi k \<and>
                 (data (h2 ! a) \<noteq> 0 \<or> 1 \<le> k \<longrightarrow>
                  call_backward (backward_fn (h1 ! out)) h2 =
                    Inr (add_grad a (of_int k * data (h2 ! a) powi (k - 1) * grad (h2 ! out))
                          h2)))) \<and>
         (case power_graph 2 3 h0 of
            Inl e \<Rightarrow> False
          | Inr (a, out, h) \<Rightarrow>
              \<exists>h'. Value_backward iter out h = Some (Inr h') \<and> grad (h' ! a) = 12) \<and>
         (case Value_add a (Ref b) h of (out, h1) \<Rightarrow>
            data (h1 ! out) = data (h ! a) + data (h ! b) \<and>
            call_backward (backward_fn (h1 ! out)) h2 =
              Inr (add_grad b (grad (h2 ! out)) (add_grad a (grad (h2 ! out)) h2))) \<and>
         (case Value_relu a h of (out, h1) \<Rightarrow>
            data (h1 ! out) = max 0 (data (h ! a)) \<and>
            call_backward (backward_fn (h1 ! out)) h2 =
              Inr (add_grad a ((if data (h2 ! out) > 0 then 1 else 0) * grad (h2 ! out)) h2))"
proof (intro conjI impI)
  show "case Value_mul a (Ref b) h of (out, h1) \<Rightarrow>
            data (h1 ! out) = data (h ! a) * data (h ! b) \<and>
            call_backward (backward_fn (h1 ! out)) h2 =
              Inr (add_grad b (data (h2 ! a) * grad (h2 ! out))
                    (add_grad a (data (h2 ! b) * grad (h2 ! out)) h2))"
    using assms(2,3) by (rule mul_rule)
  show "case product_graph 2 (- 3) h0 of (a, b, out, h) \<Rightarrow>
            \<exists>h'. Value_backward iter out h = Some (Inr h') \<and>
                 grad (h' ! a) = - 3 \<and> grad (h' ! b) = 2 \<and> grad (h' ! out) = 1"
    using assms(1) by (rule product_backward)
  show "case power_graph 2 3 h0 of
            Inl e \<Rightarrow> False
          | Inr (a, out, h) \<Rightarrow>
              \<exists>h'. Value_backward iter out h = Some (Inr h') \<and> grad (h' ! a) = 12"
    using power_backward[OF assms(1), of 2 3 h0] by (auto split: sum.splits)
  show "case Value_add a (Ref b) h of (out, h1) \<Rightarrow>
            data (h1 ! out) = data (h ! a) + data (h ! b) \<and>
            call_backward (backward_fn (h1 ! out)) h2 =
              Inr (add_grad b (grad (h2 ! out)) (add_grad a (grad (h2 ! out)) h2))"
    using assms(2,3) by (rule add_rule)
  show "case Value_relu a h of (out, h1) \<Rightarrow>
            data (h1 ! out) = max 0 (data (h ! a)) \<and>
            call_backward (backward_fn (h1 ! out)) h2 =
              Inr (add_grad a ((if data (h2 ! out) > 0 then 1 else 0) * grad (h2 ! out)) h2)"
    using assms(2) by (rule relu_rule)
next
  assume "data (h ! a) \<noteq> 0 \<or> 0 \<le> k"
  with assms(2) show "case Value_pow a (IntLit k) h of
               Inl e \<Rightarrow> False
             | Inr (out, h1) \<Rightarrow>
                 data (h1 ! out) = data (h ! a) powi k \<and>
                 (data (h2 ! a) \<noteq> 0 \<or> 1 \<le> k \<longrightarrow>
                  call_backward (backward_fn (h1 ! out)) h2 =
                    Inr (add_grad a (of_int k * data (h2 ! a) powi (k - 1) * grad (h2 ! out))
                          h2))"
    by (rule pow_rule)
qed


theorem local_derivative_table_witness:
  "iter_ok sorted_list_of_set \<and> 0 < length two_leaves \<and> 1 < length two_leaves \<and>
   (case Value_mul 0 (Ref 1) two_leaves of (out, h1) \<Rightarrow>
      data (h1 ! out) = data (two_leaves ! 0) * data (two_leaves ! 1) \<and>
      call_backward (backward_fn (h1 ! out)) h1 =
        Inr (add_grad 1 (data (h1 ! 0) * grad (h1 ! out))
              (add_grad 0 (data (h1 ! 1) * grad (h1 ! out)) h1))) \<and>
   (case power_graph 2 3 [] of
      Inl e \<Rightarrow> False
    | Inr (a, out, h) \<Rightarrow>
        \<exists>h'. Value_backward sorted_list_of_set out h = Some (Inr h') \<and> grad (h' ! a) = 12)"
proof -
  have 1: "iter_ok sorted_list_of_set" by (rule iter_ok_sorted_list_of_set)
  have 2: "0 < length two_leaves" by (simp add: two_leaves_eq)
  have 3: "1 < length two_leaves" by (simp add: two_leaves_eq)
  from local_derivative_table[OF 1 2 3, of "snd (Value_mul 0 (Ref 1) two_leaves)" "[]" 3]
  show ?thesis using 1 2 3 by (simp add: split_beta)
qed

text \<open>
  C6.  Relu gates the value and the gradient by the sign of its input: for the leaf -5
  the value of \<open>out\<close> is 0 and the backward pass leaves the gradient 0 on the leaf; for
  the leaf 5 they are 5 and 1; and so for every negative and every positive input.
\<close>

theorem relu_gating:
  assumes "iter_ok iter"
  shows "(case relu_graph (- 5) h0 of (a, out, h) \<Rightarrow>
            data (h ! out) = 0 \<and>
            (\<exists>h'. Value_backward iter out h = Some (Inr h') \<and> grad (h' ! a) = 0)) \<and>
         (case relu_graph 5 h0 of (a, out, h) \<Rightarrow>
            data (h ! out) = 5 \<and>
            (\<exists>h'. Value_backward iter out h = Some (Inr h') \<and> grad (h' ! a) = 1)) \<and>
         (case relu_graph x h0 of (a, out, h) \<Rightarrow>
            data (h ! out) = (if x < 0 then 0 else x) \<and>
            (\<exists>h'. Value_backward iter out h = Some (Inr h') \<and>
                  grad (h' ! a) = (if 0 < x then 1 else 0)))"
  using relu_backward[OF assms, of "- 5" h0] relu_backward[OF assms, of 5 h0]
    relu_backward[OF assms, of x h0]
  by simp


theorem relu_gating_witness:
  "iter_ok sorted_list_of_set \<and>
   (case relu_graph (- 5) [] of (a, out, h) \<Rightarrow>
      data (h ! out) = 0 \<and>
      (\<exists>h'. Value_backward sorted_list_of_set out h = Some (Inr h') \<and> grad (h' ! a) = 0)) \<and>
   (case relu_graph 5 [] of (a, out, h) \<Rightarrow>
      data (h ! out) = 5 \<and>
      (\<exists>h'. Value_backward sorted_list_of_set out h = Some (Inr h') \<and> grad (h' ! a) = 1))"
  using relu_gating[OF iter_ok_sorted_list_of_set, of "[]" 5]
  by (simp add: iter_ok_sorted_list_of_set)

section \<open>The traversal\<close>

text \<open>
  C2.  On every acyclic graph the traversal of the backward pass returns, and the
  sequence it records contains every node reachable from the root, each exactly once,
  and no other node; the operands of every node stand before the node.
\<close>

theorem topo_complete:
  assumes "iter_ok iter" "refs_ok h" "acyclic (edges h)" "r < length h"
  shows "\<exists>visited topo. build_topo iter (Suc (length h)) h r ({}, []) = Some (visited, topo) \<and>
           distinct topo \<and> set topo = reachable h r \<and>
           (\<forall>i<length topo. \<forall>c\<in>prev (h ! (topo ! i)). \<exists>j<i. topo ! j = c)"
proof -
  from build_topo_returns[OF assms(1,2,4)] obtain visited topo where
    1: "build_topo iter (Suc (length h)) h r ({}, []) = Some (visited, topo)" by auto
  have "dfs_pre h {} [] {r}" by (simp add: dfs_pre_def)
  from build_topo_post_aux[OF assms(1,2,3) 1 assms(4) this]
  have post: "dfs_post h {} [] {r} visited topo" .
  then have d: "distinct topo" and s: "set topo = reachable h r"
    and o: "operands_first h topo" by (auto simp: dfs_post_def reachable_def)
  have "\<exists>j<i. topo ! j = c" if "i < length topo" "c \<in> prev (h ! (topo ! i))" for i c
  proof -
    from operands_first_nth[OF o that(1)] that(2) have "c \<in> set (take i topo)" by auto
    then obtain j where "j < length (take i topo)" "take i topo ! j = c"
      by (auto simp: in_set_conv_nth)
    then show ?thesis by auto
  qed
  with 1 d s show ?thesis by blast
qed

theorem topo_complete_witness:
  "iter_ok sorted_list_of_set \<and> refs_ok (snd (snd (diamond 3 []))) \<and>
   acyclic (edges (snd (snd (diamond 3 [])))) \<and> 3 < length (snd (snd (diamond 3 []))) \<and>
   (\<exists>visited topo.
      build_topo sorted_list_of_set (Suc (length (snd (snd (diamond 3 [])))))
        (snd (snd (diamond 3 []))) 3 ({}, []) = Some (visited, topo) \<and>
      distinct topo \<and> set topo = reachable (snd (snd (diamond 3 []))) 3 \<and>
      (\<forall>i<length topo. \<forall>c\<in>prev (snd (snd (diamond 3 [])) ! (topo ! i)). \<exists>j<i. topo ! j = c))"
proof -
  have g: "graph_ok (snd (snd (diamond 3 [])))" by (simp add: graph_ok_diamond graph_ok_Nil)
  then have r: "refs_ok (snd (snd (diamond 3 [])))" and a: "acyclic (edges (snd (snd (diamond 3 []))))"
    by (simp_all add: graph_ok_def)
  have l: "3 < length (snd (snd (diamond 3 [])))" by (simp add: diamond_eq)
  from topo_complete[OF iter_ok_sorted_list_of_set r a l] r a l iter_ok_sorted_list_of_set
  show ?thesis by blast
qed



section \<open>Repeated backward passes\<close>

text \<open>
  The backward pass, started with any gradients in the heap, solves the equations of
  reverse accumulation on top of them.  The two theorems below read it off for one pass
  and for two.
\<close>

text \<open>
  C5 (as amended).  On a well-formed graph without a raising power rule the backward pass
  returns, and it changes gradients only, and only on nodes reachable from the root.
  It overwrites the gradient of the root alone, with 1.  On every other reachable node
  it adds to the gradient that was there: the result is the old gradient plus the sum,
  over the reachable nodes, of the local derivative times the final gradient of that node.
\<close>

theorem backward_accumulates:
  assumes it: "iter_ok iter" and g: "graph_ok h" and r: "r < length h"
    and nr': "never_raises h r"
  shows "\<exists>h'. Value_backward iter r h = Some (Inr h') \<and> erase_grad h' = erase_grad h \<and>
     grad (h' ! r) = 1 \<and>
     (\<forall>u<length h. u \<noteq> r \<longrightarrow> grad (h' ! u) =
         grad (h ! u) + (\<Sum>v\<in>reachable h r. local_derivative h v u * grad (h' ! v))) \<and>
     (\<forall>u<length h. u \<notin> reachable h r \<longrightarrow> grad (h' ! u) = grad (h ! u))"
proof -
  note nr = nr'[unfolded never_raises_def]
  from g have refs: "refs_ok h" and cl: "closures_ok h" and ac: "acyclic (edges h)"
    by (simp_all add: graph_ok_def)
  from backward_adjoint[OF it refs cl ac r nr] obtain h' where
    b: "Value_backward iter r h = Some (Inr h')" and e: "erase_grad h' = erase_grad h"
    and gr: "grad (h' ! r) = 1"
    and eq: "\<forall>u<length h. u \<noteq> r \<longrightarrow> grad (h' ! u) =
         grad (h ! u) + (\<Sum>v\<in>reachable h r. local_derivative h v u * grad (h' ! v))"
    by blast
  have "grad (h' ! u) = grad (h ! u)" if "u < length h" "u \<notin> reachable h r" for u
  proof -
    have "u \<noteq> r" using that(2) by (auto simp: reachable_def)
    with eq that(1) have "grad (h' ! u) =
         grad (h ! u) + (\<Sum>v\<in>reachable h r. local_derivative h v u * grad (h' ! v))"
      by blast
    moreover have "(\<Sum>v\<in>reachable h r. local_derivative h v u * grad (h' ! v)) = 0"
      by (rule sum.neutral) (simp add: local_derivative_unreachable[OF g r _ that(2)])
    ultimately show ?thesis by linarith
  qed
  with b e gr eq show ?thesis by blast
qed

theorem backward_accumulates_witness:
  "iter_ok sorted_list_of_set \<and> graph_ok product_heap \<and> 2 < length product_heap \<and>
   never_raises product_heap 2 \<and>
   (\<exists>h'. Value_backward sorted_list_of_set 2 product_heap = Some (Inr h') \<and>
      erase_grad h' = erase_grad product_heap \<and> grad (h' ! 2) = 1 \<and>
      (\<forall>u<length product_heap. u \<noteq> 2 \<longrightarrow> grad (h' ! u) =
         grad (product_heap ! u) +
         (\<Sum>v\<in>reachable product_heap 2. local_derivative product_heap v u * grad (h' ! v))) \<and>
      (\<forall>u<length product_heap. u \<notin> reachable product_heap 2 \<longrightarrow>
         grad (h' ! u) = grad (product_heap ! u)))"
  using backward_accumulates[OF iter_ok_sorted_list_of_set graph_ok_product_heap
      product_heap_length no_raise_product_heap]
    iter_ok_sorted_list_of_set graph_ok_product_heap product_heap_length no_raise_product_heap
  by blast

text \<open>
  After one pass over the product \<open>2 * -3\<close> the gradients are -3, 2 and 1; a second pass
  leaves -6, 4 and 1: the -3 and the 2 were added to, and only the root was overwritten.
\<close>

theorem gradient_not_overwritten:
  "gradients (Value_backward sorted_list_of_set 2 product_heap) = Some (Inr [- 3, 2, 1]) \<and>
   gradients (backward_twice sorted_list_of_set 2 product_heap) = Some (Inr [- 6, 4, 1])"
proof -
  have p: "sorted_list_of_set {0::nat, Suc 0} = [0, Suc 0]"
    by (rule sorted_list_of_set_pair) simp
  have 1: "Value_backward sorted_list_of_set 2 product_heap =
     Some (Inr (map2 (\<lambda>n g. n\<lparr>grad := g\<rparr>) product_heap [- 3, 2, 1]))"
    by (simp add: product_heap_eq Value_backward_def eval_nat_numeral add_grad_def p)
  have 2: "Value_backward sorted_list_of_set 2
       (map2 (\<lambda>n g. n\<lparr>grad := g\<rparr>) product_heap [- 3, 2, 1]) =
     Some (Inr (map2 (\<lambda>n g. n\<lparr>grad := g\<rparr>) product_heap [- 6, 4, 1]))"
    by (simp add: product_heap_eq Value_backward_def eval_nat_numeral add_grad_def p)
  show ?thesis
    by (simp add: gradients_def backward_twice_def 1 2) (simp add: product_heap_eq)
qed

text \<open>
  C4 (as amended).  A second backward pass on the unchanged graph, without resetting the
  gradients, reseeds the root to 1 and gives every other node its gradient of the first
  pass plus the contributions of the second.  A node that had gradient 0 before the
  first pass and whose only consumer is the root ends with twice its gradient of the
  first pass; the equation does not double a node further from the root.
\<close>

theorem second_backward_accumulates:
  assumes it: "iter_ok iter" and g: "graph_ok h" and r: "r < length h"
    and nr': "never_raises h r"
  shows "\<exists>h1 h2. Value_backward iter r h = Some (Inr h1) \<and>
     Value_backward iter r h1 = Some (Inr h2) \<and>
     grad (h1 ! r) = 1 \<and> grad (h2 ! r) = 1 \<and>
     (\<forall>u<length h. u \<noteq> r \<longrightarrow> grad (h2 ! u) =
         grad (h1 ! u) + (\<Sum>v\<in>reachable h r. local_derivative h v u * grad (h2 ! v))) \<and>
     (\<forall>u<length h. u \<noteq> r \<and> grad (h ! u) = 0 \<and>
         (\<forall>v\<in>reachable h r. v \<noteq> r \<longrightarrow> local_derivative h v u = 0) \<longrightarrow>
         grad (h2 ! u) = 2 * grad (h1 ! u))"
proof -
  note nr = nr'[unfolded never_raises_def]
  from g have refs: "refs_ok h" and cl: "closures_ok h" and ac: "acyclic (edges h)"
    by (simp_all add: graph_ok_def)
  from backward_adjoint[OF it refs cl ac r nr] obtain h1 where
    b1: "Value_backward iter r h = Some (Inr h1)" and e1: "erase_grad h1 = erase_grad h"
    and gr1: "grad (h1 ! r) = 1"
    and eq1: "\<forall>u<length h. u \<noteq> r \<longrightarrow> grad (h1 ! u) =
         grad (h ! u) + (\<Sum>v\<in>reachable h r. local_derivative h v u * grad (h1 ! v))"
    by blast
  have len: "length h1 = length h" using e1 by (rule erase_grad_length)
  have g1: "graph_ok h1" using e1 g by (rule graph_ok_erase)
  then have refs1: "refs_ok h1" and cl1: "closures_ok h1" and ac1: "acyclic (edges h1)"
    by (simp_all add: graph_ok_def)
  have re: "reachable h1 r = reachable h r" using e1 by (rule reachable_erase)
  have inh: "v < length h" if "v \<in> reachable h r" for v
    using reachable_in_heap[OF refs r that] .
  have nr1: "\<forall>v\<in>reachable h1 r. \<not> raises h1 (backward_fn (h1 ! v))"
    using nr re raises_erase[OF e1 g inh] by simp
  have r1: "r < length h1" using r len by simp
  from backward_adjoint[OF it refs1 cl1 ac1 r1 nr1] obtain h2 where
    b2: "Value_backward iter r h1 = Some (Inr h2)"
    and gr2: "grad (h2 ! r) = 1"
    and eq2': "\<forall>u<length h. u \<noteq> r \<longrightarrow> grad (h2 ! u) =
         grad (h1 ! u) + (\<Sum>v\<in>reachable h r. local_derivative h1 v u * grad (h2 ! v))"
    unfolding re len by blast
  have eq2: "\<forall>u<length h. u \<noteq> r \<longrightarrow> grad (h2 ! u) =
         grad (h1 ! u) + (\<Sum>v\<in>reachable h r. local_derivative h v u * grad (h2 ! v))"
  proof (intro allI impI)
    fix u assume "u < length h" "u \<noteq> r"
    with eq2' have "grad (h2 ! u) =
         grad (h1 ! u) + (\<Sum>v\<in>reachable h r. local_derivative h1 v u * grad (h2 ! v))" by blast
    also have "(\<Sum>v\<in>reachable h r. local_derivative h1 v u * grad (h2 ! v)) =
         (\<Sum>v\<in>reachable h r. local_derivative h v u * grad (h2 ! v))"
      by (rule sum.cong) (simp_all add: local_derivative_erase[OF e1 g inh])
    finally show "grad (h2 ! u) =
         grad (h1 ! u) + (\<Sum>v\<in>reachable h r. local_derivative h v u * grad (h2 ! v))" .
  qed
  have "reachable h r \<subseteq> {..<length h}"
  proof
    fix v assume "v \<in> reachable h r"
    then have "v < length h" by (rule inh)
    then show "v \<in> {..<length h}" by simp
  qed
  then have fin: "finite (reachable h r)" by (rule finite_subset) simp
  have rr: "r \<in> reachable h r" by (simp add: reachable_def)
  have dbl: "grad (h2 ! u) = 2 * grad (h1 ! u)"
    if u: "u < length h" "u \<noteq> r" "grad (h ! u) = 0"
      and only: "\<forall>v\<in>reachable h r. v \<noteq> r \<longrightarrow> local_derivative h v u = 0" for u
  proof -
    have single: "(\<Sum>v\<in>reachable h r. local_derivative h v u * f v) = local_derivative h r u * f r"
      for f :: "addr \<Rightarrow> real"
    proof -
      have "(\<Sum>v\<in>reachable h r. local_derivative h v u * f v) =
            (\<Sum>v\<in>{r}. local_derivative h v u * f v)"
        by (rule sum.mono_neutral_right) (use fin rr only in auto)
      then show ?thesis by simp
    qed
    have s1: "(\<Sum>v\<in>reachable h r. local_derivative h v u * grad (h1 ! v)) =
          local_derivative h r u * grad (h1 ! r)" by (rule single)
    have s2: "(\<Sum>v\<in>reachable h r. local_derivative h v u * grad (h2 ! v)) =
          local_derivative h r u * grad (h2 ! r)" by (rule single)
    from eq1 u have "grad (h1 ! u) =
         grad (h ! u) + (\<Sum>v\<in>reachable h r. local_derivative h v u * grad (h1 ! v))"
      by blast
    then have 1: "grad (h1 ! u) = local_derivative h r u"
      by (simp only: s1 u(3) gr1 mult_1_right add_0_left)
    from eq2 u have "grad (h2 ! u) =
         grad (h1 ! u) + (\<Sum>v\<in>reachable h r. local_derivative h v u * grad (h2 ! v))"
      by blast
    then have "grad (h2 ! u) = grad (h1 ! u) + local_derivative h r u"
      by (simp only: s2 gr2 mult_1_right)
    with 1 show ?thesis by linarith
  qed
  have dbl': "\<forall>u<length h. u \<noteq> r \<and> grad (h ! u) = 0 \<and>
         (\<forall>v\<in>reachable h r. v \<noteq> r \<longrightarrow> local_derivative h v u = 0) \<longrightarrow>
         grad (h2 ! u) = 2 * grad (h1 ! u)"
    using dbl by blast
  show ?thesis
  proof (rule exI[of _ h1], rule exI[of _ h2], intro conjI)
    show "Value_backward iter r h = Some (Inr h1)" by (rule b1)
    show "Value_backward iter r h1 = Some (Inr h2)" by (rule b2)
    show "grad (h1 ! r) = 1" by (rule gr1)
    show "grad (h2 ! r) = 1" by (rule gr2)
    show "\<forall>u<length h. u \<noteq> r \<longrightarrow> grad (h2 ! u) =
         grad (h1 ! u) + (\<Sum>v\<in>reachable h r. local_derivative h v u * grad (h2 ! v))"
      by (rule eq2)
    show "\<forall>u<length h. u \<noteq> r \<and> grad (h ! u) = 0 \<and>
         (\<forall>v\<in>reachable h r. v \<noteq> r \<longrightarrow> local_derivative h v u = 0) \<longrightarrow>
         grad (h2 ! u) = 2 * grad (h1 ! u)"
      by (rule dbl')
  qed
qed


theorem second_backward_accumulates_witness:
  "iter_ok sorted_list_of_set \<and> graph_ok product_heap \<and> 2 < length product_heap \<and>
   never_raises product_heap 2 \<and>
   (\<exists>h1 h2. Value_backward sorted_list_of_set 2 product_heap = Some (Inr h1) \<and>
     Value_backward sorted_list_of_set 2 h1 = Some (Inr h2) \<and>
     grad (h1 ! 2) = 1 \<and> grad (h2 ! 2) = 1 \<and>
     (\<forall>u<length product_heap. u \<noteq> 2 \<longrightarrow> grad (h2 ! u) =
         grad (h1 ! u) +
         (\<Sum>v\<in>reachable product_heap 2. local_derivative product_heap v u * grad (h2 ! v))) \<and>
     (\<forall>u<length product_heap. u \<noteq> 2 \<and> grad (product_heap ! u) = 0 \<and>
         (\<forall>v\<in>reachable product_heap 2. v \<noteq> 2 \<longrightarrow> local_derivative product_heap v u = 0) \<longrightarrow>
         grad (h2 ! u) = 2 * grad (h1 ! u)))"
  using second_backward_accumulates[OF iter_ok_sorted_list_of_set graph_ok_product_heap
      product_heap_length no_raise_product_heap]
    iter_ok_sorted_list_of_set graph_ok_product_heap product_heap_length no_raise_product_heap
  by blast


text \<open>
  In \<open>relu(relu(5))\<close> the first pass gives the leaf the gradient 1 and the second pass
  gives it 3, not 2.
\<close>

theorem second_pass_not_double:
  "gradients (Value_backward sorted_list_of_set 2 relu_chain_heap) = Some (Inr [1, 1, 1]) \<and>
   gradients (backward_twice sorted_list_of_set 2 relu_chain_heap) = Some (Inr [3, 2, 1])"
proof -
  have 1: "Value_backward sorted_list_of_set 2 relu_chain_heap =
     Some (Inr (map2 (\<lambda>n g. n\<lparr>grad := g\<rparr>) relu_chain_heap [1, 1, 1]))"
    by (simp add: relu_chain_heap_eq Value_backward_def eval_nat_numeral add_grad_def)
  have 2: "Value_backward sorted_list_of_set 2
       (map2 (\<lambda>n g. n\<lparr>grad := g\<rparr>) relu_chain_heap [1, 1, 1]) =
     Some (Inr (map2 (\<lambda>n g. n\<lparr>grad := g\<rparr>) relu_chain_heap [3, 2, 1]))"
    by (simp add: relu_chain_heap_eq Value_backward_def eval_nat_numeral add_grad_def)
  show ?thesis
    by (simp add: gradients_def backward_twice_def 1 2) (simp add: relu_chain_heap_eq)
qed


section \<open>Construction\<close>

text \<open>
  C9.  No operator changes a node that exists: each call returns the heap it was given
  with new nodes appended, all with gradient 0, and the node it returns is the last of
  them.  A raw number given to addition or multiplication becomes a new leaf with that
  value, no operands and the empty closure.
\<close>

theorem construction_frame:
  "extends_heap h (Value_add a other h) \<and>
   extends_heap h (Value_mul a other h) \<and>
   (case Value_pow a e h of Inl err \<Rightarrow> True | Inr res \<Rightarrow> extends_heap h res) \<and>
   extends_heap h (Value_relu a h) \<and>
   extends_heap h (Value_neg a h) \<and>
   extends_heap h (Value_radd a other h) \<and>
   extends_heap h (Value_sub a other h) \<and>
   extends_heap h (Value_rsub a other h) \<and>
   extends_heap h (Value_rmul a other h) \<and>
   (case Value_truediv a other h of Inl err \<Rightarrow> True | Inr res \<Rightarrow> extends_heap h res) \<and>
   (case Value_rtruediv a other h of Inl err \<Rightarrow> True | Inr res \<Rightarrow> extends_heap h res) \<and>
   snd (Value_add a (Num x) h) ! length h = leaf x \<and>
   snd (Value_mul a (Num x) h) ! length h = leaf x"
  by (auto simp: extends_heap_add extends_heap_mul extends_heap_relu extends_heap_neg
      extends_heap_radd extends_heap_sub extends_heap_rsub extends_heap_rmul wrap_add wrap_mul
      extends_heap_pow extends_heap_truediv extends_heap_rtruediv split: sum.splits)


theorem construction_frame_witness:
  "extends_heap two_leaves (Value_add 0 (Num 4) two_leaves) \<and>
   extends_heap two_leaves (Value_mul 0 (Num 4) two_leaves) \<and>
   (case Value_pow 0 (IntLit 3) two_leaves of
      Inl err \<Rightarrow> True | Inr res \<Rightarrow> extends_heap two_leaves res) \<and>
   extends_heap two_leaves (Value_relu 0 two_leaves) \<and>
   extends_heap two_leaves (Value_neg 0 two_leaves) \<and>
   extends_heap two_leaves (Value_radd 0 (Num 4) two_leaves) \<and>
   extends_heap two_leaves (Value_sub 0 (Num 4) two_leaves) \<and>
   extends_heap two_leaves (Value_rsub 0 (Num 4) two_leaves) \<and>
   extends_heap two_leaves (Value_rmul 0 (Num 4) two_leaves) \<and>
   (case Value_truediv 0 (Num 4) two_leaves of
      Inl err \<Rightarrow> True | Inr res \<Rightarrow> extends_heap two_leaves res) \<and>
   (case Value_rtruediv 0 (Num 4) two_leaves of
      Inl err \<Rightarrow> True | Inr res \<Rightarrow> extends_heap two_leaves res) \<and>
   snd (Value_add 0 (Num 4) two_leaves) ! length two_leaves = leaf 4 \<and>
   snd (Value_mul 0 (Num 4) two_leaves) ! length two_leaves = leaf 4"
  by (rule construction_frame[of two_leaves 0 "Num 4" "IntLit 3" 4])

section \<open>Layers\<close>

text \<open>
  C10.  A layer with exactly one neuron returns that neuron's output, a single node; a
  layer with any other number of neurons returns the list of the outputs of its neurons,
  in order.
\<close>

theorem layer_output_shape:
  "(length (neurons l) = 1 \<longrightarrow>
      Layer_call l x h =
        (Single (fst (Neuron_call (hd (neurons l)) x h)), snd (Neuron_call (hd (neurons l)) x h))) \<and>
   (length (neurons l) \<noteq> 1 \<longrightarrow>
      Layer_call l x h = (Many (fst (call_neurons (neurons l) x h)), snd (call_neurons (neurons l) x h)) \<and>
      length (fst (call_neurons (neurons l) x h)) = length (neurons l))"
proof (intro conjI impI)
  assume "length (neurons l) = 1"
  then obtain n where n: "neurons l = [n]" by (cases "neurons l") auto
  show "Layer_call l x h =
        (Single (fst (Neuron_call (hd (neurons l)) x h)), snd (Neuron_call (hd (neurons l)) x h))"
    by (simp add: Layer_call_def n split_beta)
next
  assume "length (neurons l) \<noteq> 1"
  then show "Layer_call l x h = (Many (fst (call_neurons (neurons l) x h)), snd (call_neurons (neurons l) x h))"
    by (simp add: Layer_call_def split_beta call_neurons_length)
  show "length (fst (call_neurons (neurons l) x h)) = length (neurons l)"
    by (rule call_neurons_length)
qed



theorem layer_output_shape_witness:
  "length (neurons one_neuron_layer) = 1 \<and>
   Layer_call one_neuron_layer [Num 4] two_leaves =
     (Single (fst (Neuron_call (hd (neurons one_neuron_layer)) [Num 4] two_leaves)),
      snd (Neuron_call (hd (neurons one_neuron_layer)) [Num 4] two_leaves)) \<and>
   length (neurons two_neuron_layer) \<noteq> 1 \<and>
   Layer_call two_neuron_layer [Num 4] two_leaves =
     (Many (fst (call_neurons (neurons two_neuron_layer) [Num 4] two_leaves)),
      snd (call_neurons (neurons two_neuron_layer) [Num 4] two_leaves)) \<and>
   length (fst (call_neurons (neurons two_neuron_layer) [Num 4] two_leaves)) =
     length (neurons two_neuron_layer)"
proof -
  have 1: "length (neurons one_neuron_layer) = 1" by (simp add: one_neuron_layer_def)
  have 2: "length (neurons two_neuron_layer) \<noteq> 1" by (simp add: two_neuron_layer_def)
  from layer_output_shape[of one_neuron_layer "[Num 4]" two_leaves]
    layer_output_shape[of two_neuron_layer "[Num 4]" two_leaves] 1 2
  show ?thesis by blast
qed

section \<open>Errors\<close>

text \<open>
  C7 (as amended).  \<^verbatim>\<open>__pow__\<close> fails its assertion for an exponent that is a node or a
  string, and not for an integer literal (a float literal passes the same \<^verbatim>\<open>isinstance\<close>
  test; it is outside this development).  The assertion is not the only failure: Python's
  \<^verbatim>\<open>**\<close> raises \<^verbatim>\<open>ZeroDivisionError\<close> for a zero base and a negative exponent, and the
  engine passes it on.  So for a node \<open>a\<close> of value 0, \<^verbatim>\<open>a ** k\<close> raises it for a negative
  integer \<open>k\<close> (down to \<^verbatim>\<open>-2**1023\<close>, which Python still converts to a float), the
  reverse division \<^verbatim>\<open>other / a\<close> raises it, and when \<open>a\<close> is a leaf, \<^verbatim>\<open>a ** 0\<close> is built but
  its backward pass raises it; division by a node or a number of value 0 raises it too.
  Nothing is stated about the absence of errors elsewhere.
\<close>

theorem error_conditions:
  assumes "iter_ok iter" "graph_ok h" "a < length h"
  shows "(Value_pow a e h = Inl AssertionError) = (\<forall>k. e \<noteq> IntLit k) \<and>
     (data (h ! a) = 0 \<and> - (2 ^ 1023) \<le> k \<and> k < 0 \<longrightarrow>
        Value_pow a (IntLit k) h = Inl ZeroDivisionError) \<and>
     ((case other of Ref b \<Rightarrow> data (h ! b) = 0 | Num x \<Rightarrow> x = 0) \<longrightarrow>
        Value_truediv a other h = Inl ZeroDivisionError) \<and>
     (data (h ! a) = 0 \<longrightarrow> Value_rtruediv a other h = Inl ZeroDivisionError) \<and>
     (data (h ! a) = 0 \<and> prev (h ! a) = {} \<longrightarrow>
        (\<exists>out h1. Value_pow a (IntLit 0) h = Inr (out, h1) \<and>
           Value_backward iter out h1 = Some (Inl ZeroDivisionError)))"
proof (intro conjI impI)
  show "(Value_pow a e h = Inl AssertionError) = (\<forall>k. e \<noteq> IntLit k)"
    by (rule pow_assertion)
  show "Value_pow a (IntLit k) h = Inl ZeroDivisionError"
    if "data (h ! a) = 0 \<and> - (2 ^ 1023) \<le> k \<and> k < 0"
    using that by (simp add: pow_zero_division)
  show "Value_truediv a other h = Inl ZeroDivisionError"
    if "case other of Ref b \<Rightarrow> data (h ! b) = 0 | Num x \<Rightarrow> x = 0"
    using that by (rule truediv_zero)
  show "Value_rtruediv a other h = Inl ZeroDivisionError" if "data (h ! a) = 0"
    using that by (rule rtruediv_zero)
  show "\<exists>out h1. Value_pow a (IntLit 0) h = Inr (out, h1) \<and>
      Value_backward iter out h1 = Some (Inl ZeroDivisionError)"
    if "data (h ! a) = 0 \<and> prev (h ! a) = {}"
    using that pow_zero_backward[OF assms] by blast
qed

theorem error_conditions_witness:
  "iter_ok sorted_list_of_set \<and> graph_ok zero_leaf \<and> 0 < length zero_leaf \<and>
   data (zero_leaf ! 0) = 0 \<and> prev (zero_leaf ! 0) = {} \<and>
   Value_pow 0 (NodeExp 0) zero_leaf = Inl AssertionError \<and>
   Value_pow 0 (IntLit 2) zero_leaf \<noteq> Inl AssertionError \<and>
   Value_pow 0 (IntLit (- 1)) zero_leaf = Inl ZeroDivisionError \<and>
   Value_truediv 0 (Ref 0) zero_leaf = Inl ZeroDivisionError \<and>
   Value_rtruediv 0 (Num 1) zero_leaf = Inl ZeroDivisionError \<and>
   (\<exists>out h1. Value_pow 0 (IntLit 0) zero_leaf = Inr (out, h1) \<and>
      Value_backward sorted_list_of_set out h1 = Some (Inl ZeroDivisionError))"
proof -
  have l: "0 < length zero_leaf" and z: "data (zero_leaf ! 0) = 0" "prev (zero_leaf ! 0) = {}"
    by (simp_all add: zero_leaf_eq leaf_def)
  from error_conditions[OF iter_ok_sorted_list_of_set graph_ok_zero_leaf l,
      where e = "NodeExp 0" and k = "- 1" and other = "Ref 0"]
    error_conditions[OF iter_ok_sorted_list_of_set graph_ok_zero_leaf l,
      where e = "IntLit 2" and k = "- 1" and other = "Num 1"]
    iter_ok_sorted_list_of_set graph_ok_zero_leaf l z
  show ?thesis by simp
qed

text \<open>
  \<open>2 / 0\<close> raises, and so does the backward pass of \<open>a ** 0\<close> for \<open>a = Value(0)\<close>.
\<close>

theorem division_by_zero_raises:
  "Value_truediv 0 (Num 0) two_leaves = Inl ZeroDivisionError \<and>
   power_graph 0 0 [] = Inr (0, 1, zero_power_heap) \<and>
   Value_backward sorted_list_of_set 1 zero_power_heap = Some (Inl ZeroDivisionError)"
proof (intro conjI)
  show "Value_truediv 0 (Num 0) two_leaves = Inl ZeroDivisionError"
    by (simp add: truediv_zero)
  show "power_graph 0 0 [] = Inr (0, 1, zero_power_heap)"
    by (simp add: power_graph_def Value_init_def Value_pow_def py_pow_def set_backward_def
        zero_power_heap_def str_int_def str_nat.simps)
  have 1: "sorted_list_of_set {0::nat} = [0]" by simp
  show "Value_backward sorted_list_of_set 1 zero_power_heap = Some (Inl ZeroDivisionError)"
    by (simp add: Value_backward_def zero_power_heap_def 1 py_pow_def)
qed

section \<open>Derived operators\<close>



end
